theory Spec2Isabelle
  imports Complex_Main "HOL-Library.Multiset"
begin

section \<open>RooProduct: term grouping, partial-integral lists and evaluation\<close>

text \<open>
  A shallow embedding of \<^verbatim>\<open>roofitcore/src/RooProduct.cxx\<close>. A \<^verbatim>\<open>RooAbsArg\<close> is identified by
  its name: every collection operation the file uses (\<^verbatim>\<open>add\<close>, \<^verbatim>\<open>overlaps\<close>,
  \<^verbatim>\<open>dependsOn\<close>) compares arguments by name. \<^verbatim>\<open>Double_t\<close> values are modelled as
  \<^typ>\<open>real\<close> and \<^verbatim>\<open>Int_t\<close> category indices as \<^typ>\<open>int\<close>.
\<close>

subsection \<open>Collections\<close>

type_synonym arg = string

text \<open>
  Modelled from the spec: \<^verbatim>\<open>RooArgSet\<close> is declared outside the two source files. It is an
  ordered collection of arguments with unique names, iterated in insertion order;
  \<^verbatim>\<open>add\<close> of an argument whose name is already present leaves the set as it is, \<^verbatim>\<open>add\<close>
  of a collection adds its members one by one (the union into the first set),
  \<^verbatim>\<open>overlaps\<close> tells whether two sets share at least one member, and \<^verbatim>\<open>getSize\<close>
  counts the members.
\<close>

type_synonym RooArgSet = "arg list"

definition add :: "RooArgSet \<Rightarrow> arg \<Rightarrow> RooArgSet" where
  "add s a = (if a \<in> set s then s else s @ [a])"

definition addSet :: "RooArgSet \<Rightarrow> RooArgSet \<Rightarrow> RooArgSet" where
  "addSet s t = foldl add s t"

definition overlaps :: "RooArgSet \<Rightarrow> RooArgSet \<Rightarrow> bool" where
  "overlaps s t = list_ex (\<lambda>a. a \<in> set s) t"

definition getSize :: "'a list \<Rightarrow> nat" where
  "getSize s = length s"

text \<open>
  Modelled from the spec: the dependency oracle \<^verbatim>\<open>dependsOn(Term, Variable)\<close> is supplied by
  each term and is a parameter \<open>dep\<close> of the model; \<^verbatim>\<open>dependsOn(Term, VariableSet)\<close> holds
  when the term depends on at least one variable of the set.
\<close>

definition dependsOnSet :: "(arg \<Rightarrow> arg \<Rightarrow> bool) \<Rightarrow> arg \<Rightarrow> RooArgSet \<Rightarrow> bool" where
  "dependsOnSet dep t vars = list_ex (dep t) vars"

subsection \<open>Data model\<close>

text \<open>
  \<^verbatim>\<open>ProdMap\<close> is a vector of pairs (variable set, term set). An iterator into it is a
  position; \<^verbatim>\<open>erase\<close> removes the element at a position.
\<close>

type_synonym ProdMap = "(RooArgSet \<times> RooArgSet) list"

definition erase :: "'a list \<Rightarrow> nat \<Rightarrow> 'a list" where
  "erase m j = take j m @ drop (Suc j) m"

text \<open>
  The failures of the code: a failed \<^verbatim>\<open>assert\<close>, and the use of a null pointer (the
  result of \<^verbatim>\<open>createIntegral\<close> and of \<^verbatim>\<open>nameSet2ByIndex\<close> is used unchecked).
\<close>

datatype error = AssertionFailed | NullPointer

text \<open>
  The \<^verbatim>\<open>RooAbsReal\<close> objects a partial-integral list points to: a real component of the
  product, a sub-product made by \<^verbatim>\<open>new RooProduct(name, name, terms)\<close> (every term of a
  group is a real component, so the constructor files each under the real components of
  the sub-product), or an integral object returned by \<^verbatim>\<open>createIntegral\<close>. The type \<open>'i\<close>
  of integral objects is a parameter: they come from the terms.
\<close>

datatype 'i absReal = Comp arg | SubProd string RooArgSet | Integ 'i

text \<open>\<^verbatim>\<open>RooProduct::CacheElem\<close>: the list to multiply and the list of owned objects.\<close>

record 'i CacheElem =
  prodList :: "'i absReal list"
  ownedList :: "'i absReal list"

text \<open>
  Modelled from the spec: the cache manager (\<^verbatim>\<open>_cacheMgr\<close>) is declared outside the two
  source files. A slot is keyed by the two variable sets given to \<^verbatim>\<open>getObj\<close> and
  \<^verbatim>\<open>setObj\<close> (here both are the integration variables; the second is the persisted
  descriptor) and by the range-name token; its integer code is its position. Variable
  sets are compared by value: as ordered collections, the same names in the same order.
  A sterilized slot keeps its key and its code and has no object.
\<close>

record 'i slot =
  key_nset :: RooArgSet
  key_iset :: RooArgSet
  key_range :: "string option"
  obj :: "'i CacheElem option"

text \<open>
  The members of \<^verbatim>\<open>RooProduct\<close> the functions below read or write: the real components,
  the category components, the normalization set of the real components' proxy
  (\<^verbatim>\<open>_compRSet.nset()\<close>) and the cache manager.
\<close>

record 'i RooProduct =
  compRSet :: RooArgSet
  compCSet :: RooArgSet
  nset :: "RooArgSet option"
  cacheMgr :: "'i slot list"

subsection \<open>The term grouper\<close>

text \<open>
  \<^verbatim>\<open>findOverlap2nd(i, end)\<close>: the inner loop runs \<open>j\<close> from \<open>i + 1\<close> to the end and stops at
  the first \<open>j\<close> whose term set overlaps the term set of \<open>i\<close>; the outer loop advances
  \<open>i\<close>. The range \<open>[i, end)\<close> is the list of the remaining elements together with the
  position of its first element; \<open>None\<close> is the pair \<open>(end, end)\<close>.
\<close>

fun findOverlap2nd_j :: "RooArgSet \<Rightarrow> ProdMap \<Rightarrow> nat \<Rightarrow> nat option" where
  "findOverlap2nd_j si [] j = None"
| "findOverlap2nd_j si (g # gs) j =
     (if overlaps si (snd g) then Some j else findOverlap2nd_j si gs (Suc j))"

fun findOverlap2nd :: "ProdMap \<Rightarrow> nat \<Rightarrow> (nat \<times> nat) option" where
  "findOverlap2nd [] i = None"
| "findOverlap2nd (g # gs) i =
     (case findOverlap2nd_j (snd g) gs (Suc i) of
        Some j \<Rightarrow> Some (i, j)
      | None \<Rightarrow> findOverlap2nd gs (Suc i))"

text \<open>One merge: the second group is added into the first and erased.\<close>

definition mergeAt :: "ProdMap \<Rightarrow> nat \<Rightarrow> nat \<Rightarrow> ProdMap" where
  "mergeAt m i j =
     erase (m[i := (addSet (fst (m ! i)) (fst (m ! j)), addSet (snd (m ! i)) (snd (m ! j)))]) j"

lemma findOverlap2nd_j_bounds:
  "findOverlap2nd_j si gs j = Some k \<Longrightarrow> j \<le> k \<and> k < j + length gs"
  by (induction gs arbitrary: j) (fastforce split: if_splits)+

lemma findOverlap2nd_bounds:
  "findOverlap2nd gs i = Some (a, b) \<Longrightarrow> i \<le> a \<and> a < b \<and> b < i + length gs"
proof (induction gs arbitrary: i)
  case Nil
  then show ?case by simp
next
  case (Cons g gs)
  show ?case
  proof (cases "findOverlap2nd_j (snd g) gs (Suc i)")
    case None
    with Cons.prems have "findOverlap2nd gs (Suc i) = Some (a, b)" by simp
    from Cons.IH [OF this] show ?thesis by simp
  next
    case (Some j)
    with Cons.prems have "a = i" "b = j" by simp_all
    with findOverlap2nd_j_bounds [OF Some] show ?thesis by simp
  qed
qed

lemma length_mergeAt:
  "j < length m \<Longrightarrow> length (mergeAt m i j) < length m"
  by (simp add: mergeAt_def erase_def)

text \<open>The do-while loop: merge the first overlapping pair until there is none.\<close>

function mergeLoop :: "ProdMap \<Rightarrow> ProdMap" where
  "mergeLoop m =
     (case findOverlap2nd m 0 of
        None \<Rightarrow> m
      | Some ij \<Rightarrow> mergeLoop (mergeAt m (fst ij) (snd ij)))"
  by pat_completeness auto
termination
proof (relation "measure length")
  show "wf (measure length)" by simp
next
  fix m :: ProdMap and ij
  assume "findOverlap2nd m 0 = Some ij"
  then have "findOverlap2nd m 0 = Some (fst ij, snd ij)" by simp
  from findOverlap2nd_bounds [OF this] have "snd ij < length m" by simp
  then show "(mergeAt m (fst ij) (snd ij), m) \<in> measure length"
    by (simp add: length_mergeAt)
qed

declare mergeLoop.simps [simp del]

text \<open>
  \<^verbatim>\<open>groupProductTerms(allVars)\<close>: the independent terms, one group per variable, the merge
  loop, and the two assertions on the sizes.
\<close>

definition groupProductTerms ::
  "(arg \<Rightarrow> arg \<Rightarrow> bool) \<Rightarrow> 'i RooProduct \<Rightarrow> RooArgSet \<Rightarrow> error + ProdMap" where
  "groupProductTerms dep P allVars =
     (let indep = foldl (\<lambda>s rcomp. if \<not> dependsOnSet dep rcomp allVars then add s rcomp else s)
                    [] (compRSet P);
          map0 = (if getSize indep \<noteq> 0 then [([], indep)] else []);
          map1 = foldl (\<lambda>m var.
                    m @ [(add [] var,
                          foldl (\<lambda>comps rcomp. if dep rcomp var then add comps rcomp else comps)
                            [] (compRSet P))])
                   map0 allVars;
          map2 = mergeLoop map1;
          nVar = sum_list (map (\<lambda>g. getSize (fst g)) map2);
          nFunc = sum_list (map (\<lambda>g. getSize (snd g)) map2)
      in if nVar \<noteq> getSize allVars then Inl AssertionFailed
         else if nFunc \<noteq> getSize (compRSet P) then Inl AssertionFailed
         else Inr map2)"

subsection \<open>The partial-integral builder\<close>

text \<open>
  \<^verbatim>\<open>makeFPName(pfx, terms)\<close>: the prefix, then the names of the terms in the iteration
  order of the set, separated by \<^verbatim>\<open>_X_\<close>.
\<close>

fun makeFPName_loop :: "string \<Rightarrow> bool \<Rightarrow> RooArgSet \<Rightarrow> string" where
  "makeFPName_loop pname first [] = pname"
| "makeFPName_loop pname first (a # rest) =
     makeFPName_loop ((if first then pname else pname @ ''_X_'') @ a) False rest"

definition makeFPName :: "string \<Rightarrow> RooArgSet \<Rightarrow> string" where
  "makeFPName pfx terms = makeFPName_loop pfx True terms"

text \<open>
  One round of the loop of \<^verbatim>\<open>getPartIntList\<close> over the groups: the term of the group
  (\<^verbatim>\<open>assert(term!=0)\<close> cannot fail: the term is a new sub-product or the member of a
  set of size one), then the factor. The analytic integration
  \<^verbatim>\<open>createIntegral(term, vars, range)\<close> is supplied by the terms and is a parameter;
  \<open>None\<close> is the null pointer, which the code dereferences. The lists of a
  \<^verbatim>\<open>CacheElem\<close> are appended to.
\<close>

definition getPartIntList_term ::
  "RooArgSet \<times> RooArgSet \<Rightarrow> 'i CacheElem \<Rightarrow> error + ('i absReal \<times> 'i CacheElem)" where
  "getPartIntList_term i cache =
     (if getSize (snd i) > 1 then
        (let name = makeFPName ''SUBPROD_'' (snd i);
             term = SubProd name (snd i)
         in Inr (term, cache\<lparr>ownedList := ownedList cache @ [term]\<rparr>))
      else (case snd i of
              [t] \<Rightarrow> Inr (Comp t, cache)
            | _ \<Rightarrow> Inl AssertionFailed))"

definition getPartIntList_step ::
  "('i absReal \<Rightarrow> RooArgSet \<Rightarrow> string option \<Rightarrow> 'i option) \<Rightarrow> string option \<Rightarrow>
   RooArgSet \<times> RooArgSet \<Rightarrow> 'i CacheElem \<Rightarrow> error + 'i CacheElem" where
  "getPartIntList_step createIntegral isetRange i cache =
     (case getPartIntList_term i cache of
        Inl e \<Rightarrow> Inl e
      | Inr tc \<Rightarrow>
          if getSize (fst i) = 0 then
            Inr ((snd tc)\<lparr>prodList := prodList (snd tc) @ [fst tc]\<rparr>)
          else
            (case createIntegral (fst tc) (fst i) isetRange of
               None \<Rightarrow> Inl NullPointer
             | Some integral \<Rightarrow>
                 Inr ((snd tc)\<lparr>prodList := prodList (snd tc) @ [Integ integral],
                                ownedList := ownedList (snd tc) @ [Integ integral]\<rparr>)))"

fun getPartIntList_loop ::
  "('i absReal \<Rightarrow> RooArgSet \<Rightarrow> string option \<Rightarrow> 'i option) \<Rightarrow> string option \<Rightarrow>
   ProdMap \<Rightarrow> 'i CacheElem \<Rightarrow> error + 'i CacheElem" where
  "getPartIntList_loop createIntegral isetRange [] cache = Inr cache"
| "getPartIntList_loop createIntegral isetRange (i # rest) cache =
     (case getPartIntList_step createIntegral isetRange i cache of
        Inl e \<Rightarrow> Inl e
      | Inr cache' \<Rightarrow> getPartIntList_loop createIntegral isetRange rest cache')"

subsection \<open>The integral cache\<close>

text \<open>
  Modelled from the spec: \<^verbatim>\<open>RooNameReg::ptr\<close> interns a range name; two textually equal
  names resolve to the same token and no range is the null token, so the token is the
  name itself.
\<close>

definition RooNameReg_ptr :: "string option \<Rightarrow> string option" where
  "RooNameReg_ptr rangeName = rangeName"

text \<open>
  Modelled from the spec: a slot is keyed by the normalized set of the integration
  variables, the normalized set of the dependent variables and the range token. The
  normalized set of a variable set is the set of its names: two variable sets are equal by
  value when they hold the same names, in whatever order they were filled.
\<close>

definition normalized :: "RooArgSet \<Rightarrow> arg set" where
  "normalized vars = set vars"

text \<open>
  Modelled from the spec: the operations of the cache manager. \<^verbatim>\<open>getObj\<close> looks the key
  up and returns the code and the object of its slot, or nothing when there is no such
  slot or the slot is sterilized; \<^verbatim>\<open>setObj\<close> stores an object: in the slot of the key
  when there is one (a revived entry lands in the same slot), and else in a new slot with
  a new code, and the slot keeps the variable sets of the call as the persisted descriptor
  of the object it holds; \<^verbatim>\<open>getObjByIndex\<close> and \<^verbatim>\<open>nameSet2ByIndex\<close> return the object
  and the persisted descriptor of a code, or null for a code out of range;
  \<^verbatim>\<open>sterilize\<close> evicts the objects and keeps keys, descriptors and codes.
\<close>

fun findKey ::
  "'i slot list \<Rightarrow> RooArgSet \<Rightarrow> RooArgSet \<Rightarrow> string option \<Rightarrow> nat \<Rightarrow> nat option" where
  "findKey [] ns is tok k = None"
| "findKey (s # ss) ns is tok k =
     (if normalized (key_nset s) = normalized ns \<and> normalized (key_iset s) = normalized is \<and>
         key_range s = tok
      then Some k
      else findKey ss ns is tok (Suc k))"

definition getObj ::
  "'i slot list \<Rightarrow> RooArgSet \<Rightarrow> RooArgSet \<Rightarrow> string option \<Rightarrow> (int \<times> 'i CacheElem) option" where
  "getObj mgr ns is tok =
     (case findKey mgr ns is tok 0 of
        None \<Rightarrow> None
      | Some k \<Rightarrow> (case obj (mgr ! k) of None \<Rightarrow> None | Some e \<Rightarrow> Some (int k, e)))"

definition setObj ::
  "'i slot list \<Rightarrow> RooArgSet \<Rightarrow> RooArgSet \<Rightarrow> 'i CacheElem \<Rightarrow> string option \<Rightarrow>
   int \<times> 'i slot list" where
  "setObj mgr ns is e tok =
     (case findKey mgr ns is tok 0 of
        Some k \<Rightarrow>
          (int k, mgr[k := \<lparr>key_nset = ns, key_iset = is, key_range = tok, obj = Some e\<rparr>])
      | None \<Rightarrow>
          (int (length mgr),
           mgr @ [\<lparr>key_nset = ns, key_iset = is, key_range = tok, obj = Some e\<rparr>]))"

definition getObjByIndex :: "'i slot list \<Rightarrow> int \<Rightarrow> 'i CacheElem option" where
  "getObjByIndex mgr index =
     (if index < 0 \<or> index \<ge> int (length mgr) then None else obj (mgr ! nat index))"

definition nameSet2ByIndex :: "'i slot list \<Rightarrow> int \<Rightarrow> RooArgSet option" where
  "nameSet2ByIndex mgr index =
     (if index < 0 \<or> index \<ge> int (length mgr) then None else Some (key_iset (mgr ! nat index)))"

definition sterilize :: "'i slot list \<Rightarrow> 'i slot list" where
  "sterilize mgr = map (\<lambda>s. s\<lparr>obj := None\<rparr>) mgr"

text \<open>
  Modelled from the spec: \<^verbatim>\<open>getParameters\<close> and the descriptor's \<^verbatim>\<open>select\<close> are outside
  the two source files. Revival re-derives the variable set from the persisted descriptor:
  those of its names that are variables of the product (some component depends on them),
  in the descriptor's order.
\<close>

definition selectParameters ::
  "(arg \<Rightarrow> arg \<Rightarrow> bool) \<Rightarrow> 'i RooProduct \<Rightarrow> RooArgSet \<Rightarrow> RooArgSet" where
  "selectParameters dep P names =
     filter (\<lambda>n. list_ex (\<lambda>t. dep t n) (compRSet P @ compCSet P)) names"

text \<open>
  \<^verbatim>\<open>getPartIntList(iset, isetRange)\<close> returns the code and the product with its cache
  manager updated.
\<close>

definition getPartIntList ::
  "(arg \<Rightarrow> arg \<Rightarrow> bool) \<Rightarrow> ('i absReal \<Rightarrow> RooArgSet \<Rightarrow> string option \<Rightarrow> 'i option) \<Rightarrow>
   'i RooProduct \<Rightarrow> RooArgSet \<Rightarrow> string option \<Rightarrow> error + (int \<times> 'i RooProduct)" where
  "getPartIntList dep createIntegral P iset isetRange =
     (case getObj (cacheMgr P) iset iset (RooNameReg_ptr isetRange) of
        Some ce \<Rightarrow> Inr (fst ce, P)
      | None \<Rightarrow>
          (case groupProductTerms dep P iset of
             Inl e \<Rightarrow> Inl e
           | Inr m \<Rightarrow>
               if length m < 2 then Inr (- 1, P)
               else
                 (case getPartIntList_loop createIntegral isetRange m
                         \<lparr>prodList = [], ownedList = []\<rparr> of
                    Inl e \<Rightarrow> Inl e
                  | Inr cache \<Rightarrow>
                      (let cm = setObj (cacheMgr P) iset iset cache (RooNameReg_ptr isetRange)
                       in Inr (fst cm, P\<lparr>cacheMgr := snd cm\<rparr>)))))"

subsection \<open>The evaluator\<close>

text \<open>
  The current values are supplied by the terms: \<open>getVal a ns\<close> is the value of the real
  component \<open>a\<close> under the normalization set \<open>ns\<close> (\<open>None\<close> is the null set of a call
  \<^verbatim>\<open>getVal()\<close>), \<open>getIndex c\<close> the index of the category component \<open>c\<close>, and
  \<open>integVal\<close> the value of an integral object.
\<close>

definition evaluate ::
  "(arg \<Rightarrow> RooArgSet option \<Rightarrow> real) \<Rightarrow> (arg \<Rightarrow> int) \<Rightarrow> 'i RooProduct \<Rightarrow> real" where
  "evaluate getVal getIndex P =
     (let prod = foldl (\<lambda>prod rcomp. prod * getVal rcomp (nset P)) 1 (compRSet P)
      in foldl (\<lambda>prod ccomp. prod * of_int (getIndex ccomp)) prod (compCSet P))"

text \<open>\<^verbatim>\<open>term->getVal()\<close> on an element of a partial-integral list.\<close>

definition absReal_getVal ::
  "(arg \<Rightarrow> RooArgSet option \<Rightarrow> real) \<Rightarrow> (arg \<Rightarrow> int) \<Rightarrow> ('i \<Rightarrow> real) \<Rightarrow> 'i absReal \<Rightarrow> real" where
  "absReal_getVal getVal getIndex integVal t =
     (case t of
        Comp a \<Rightarrow> getVal a None
      | SubProd name terms \<Rightarrow>
          evaluate getVal getIndex
            (\<lparr>compRSet = terms, compCSet = [], nset = None, cacheMgr = []\<rparr> :: 'i RooProduct)
      | Integ i \<Rightarrow> integVal i)"

definition calculate ::
  "(arg \<Rightarrow> RooArgSet option \<Rightarrow> real) \<Rightarrow> (arg \<Rightarrow> int) \<Rightarrow> ('i \<Rightarrow> real) \<Rightarrow>
   'i absReal list \<Rightarrow> real" where
  "calculate getVal getIndex integVal partIntList =
     foldl (\<lambda>val term. val * absReal_getVal getVal getIndex integVal term) 1 partIntList"

subsection \<open>Evaluation of an integral code\<close>

text \<open>
  \<^verbatim>\<open>analyticalIntegral\<close> calls itself after it has repopulated a sterilized slot. The call
  returns: after a \<^verbatim>\<open>getPartIntList\<close> that gave the code of an existing slot, the slot
  holds an object.
\<close>

lemma findKey_bounds: "findKey mgr ns is tok k = Some c \<Longrightarrow> k \<le> c \<and> c < k + length mgr"
  by (induction mgr arbitrary: k) (fastforce split: if_splits)+

lemma getObj_Some:
  "getObj mgr ns is tok = Some ce \<Longrightarrow> getObjByIndex mgr (fst ce) = Some (snd ce)"
proof -
  assume a: "getObj mgr ns is tok = Some ce"
  then obtain k where k: "findKey mgr ns is tok 0 = Some k"
    by (auto simp: getObj_def split: option.splits)
  from findKey_bounds [OF k] have "k < length mgr" by simp
  with a k show ?thesis
    by (auto simp: getObj_def getObjByIndex_def split: option.splits)
qed

lemma setObj_stored:
  "getObjByIndex (snd (setObj mgr ns is e tok)) (fst (setObj mgr ns is e tok)) = Some e"
proof (cases "findKey mgr ns is tok 0")
  case None
  then show ?thesis by (simp add: setObj_def getObjByIndex_def)
next
  case (Some k)
  from findKey_bounds [OF Some] have "k < length mgr" by simp
  with Some show ?thesis by (simp add: setObj_def getObjByIndex_def)
qed

lemma getPartIntList_revives:
  assumes "getPartIntList dep createIntegral P iset isetRange = Inr cp"
    and "nameSet2ByIndex (cacheMgr P) (fst cp) \<noteq> None"
  shows "getObjByIndex (cacheMgr (snd cp)) (fst cp) \<noteq> None"
proof (cases "getObj (cacheMgr P) iset iset (RooNameReg_ptr isetRange)")
  case (Some ce)
  with assms(1) have "cp = (fst ce, P)" by (simp add: getPartIntList_def)
  with getObj_Some [OF Some] show ?thesis by simp
next
  case None
  with assms(1) obtain m where m: "groupProductTerms dep P iset = Inr m"
    by (auto simp: getPartIntList_def split: sum.splits)
  show ?thesis
  proof (cases "length m < 2")
    case True
    with None m assms(1) have "fst cp = - 1" by (auto simp: getPartIntList_def)
    with assms(2) show ?thesis by (simp add: nameSet2ByIndex_def)
  next
    case False
    with None m assms(1) obtain cache where
      "cp = (fst (setObj (cacheMgr P) iset iset cache (RooNameReg_ptr isetRange)),
             P\<lparr>cacheMgr := snd (setObj (cacheMgr P) iset iset cache (RooNameReg_ptr isetRange))\<rparr>)"
      by (auto simp: getPartIntList_def Let_def split: sum.splits)
    then show ?thesis by (simp add: setObj_stored)
  qed
qed

text \<open>
  \<^verbatim>\<open>analyticalIntegral(code, rangeName)\<close> returns the value and the product with its cache
  manager updated. A code out of range makes \<^verbatim>\<open>nameSet2ByIndex\<close> return null, which
  the code dereferences.
\<close>

function analyticalIntegral ::
  "(arg \<Rightarrow> arg \<Rightarrow> bool) \<Rightarrow> ('i absReal \<Rightarrow> RooArgSet \<Rightarrow> string option \<Rightarrow> 'i option) \<Rightarrow>
   (arg \<Rightarrow> RooArgSet option \<Rightarrow> real) \<Rightarrow> (arg \<Rightarrow> int) \<Rightarrow> ('i \<Rightarrow> real) \<Rightarrow>
   'i RooProduct \<Rightarrow> int \<Rightarrow> string option \<Rightarrow> error + (real \<times> 'i RooProduct)" where
  "analyticalIntegral dep createIntegral getVal getIndex integVal P code rangeName =
     (case getObjByIndex (cacheMgr P) (code - 1) of
        Some cache \<Rightarrow> Inr (calculate getVal getIndex integVal (prodList cache), P)
      | None \<Rightarrow>
          (case nameSet2ByIndex (cacheMgr P) (code - 1) of
             None \<Rightarrow> Inl NullPointer
           | Some names \<Rightarrow>
               (case getPartIntList dep createIntegral P (selectParameters dep P names) rangeName of
                  Inl e \<Rightarrow> Inl e
                | Inr cp \<Rightarrow>
                    if code \<noteq> fst cp + 1 then Inl AssertionFailed
                    else analyticalIntegral dep createIntegral getVal getIndex integVal
                           (snd cp) (fst cp + 1) rangeName)))"
  by pat_completeness auto
termination
proof (relation "measure (\<lambda>(dep, createIntegral, getVal, getIndex, integVal, P, code, rangeName).
         if getObjByIndex (cacheMgr P) (code - 1) = None then 1 else 0)")
  show "wf (measure (\<lambda>(dep :: arg \<Rightarrow> arg \<Rightarrow> bool, createIntegral :: 'i absReal \<Rightarrow> RooArgSet \<Rightarrow> string option \<Rightarrow> 'i option,
         getVal :: arg \<Rightarrow> RooArgSet option \<Rightarrow> real, getIndex :: arg \<Rightarrow> int, integVal :: 'i \<Rightarrow> real, P :: 'i RooProduct, code :: int, rangeName :: string option).
         if getObjByIndex (cacheMgr P) (code - 1) = None then 1 else (0::nat)))"
    by simp
next
  fix dep :: "arg \<Rightarrow> arg \<Rightarrow> bool"
    and createIntegral :: "'i absReal \<Rightarrow> RooArgSet \<Rightarrow> string option \<Rightarrow> 'i option"
    and getVal :: "arg \<Rightarrow> RooArgSet option \<Rightarrow> real" and getIndex :: "arg \<Rightarrow> int"
    and integVal :: "'i \<Rightarrow> real" and P :: "'i RooProduct" and code :: int
    and rangeName :: "string option" and names cp
  assume miss: "getObjByIndex (cacheMgr P) (code - 1) = None"
    and names: "nameSet2ByIndex (cacheMgr P) (code - 1) = Some names"
    and cp: "getPartIntList dep createIntegral P (selectParameters dep P names) rangeName = Inr cp"
    and code: "\<not> code \<noteq> fst cp + 1"
  from code have c: "code - 1 = fst cp" by simp
  from names c have "nameSet2ByIndex (cacheMgr P) (fst cp) \<noteq> None" by simp
  from getPartIntList_revives [OF cp this]
  have "getObjByIndex (cacheMgr (snd cp)) (fst cp + 1 - 1) \<noteq> None" by simp
  with miss show "((dep, createIntegral, getVal, getIndex, integVal, snd cp, fst cp + 1, rangeName),
           (dep, createIntegral, getVal, getIndex, integVal, P, code, rangeName))
          \<in> measure (\<lambda>(dep, createIntegral, getVal, getIndex, integVal, P, code, rangeName).
                if getObjByIndex (cacheMgr P) (code - 1) = None then 1 else 0)"
    by simp
qed

declare analyticalIntegral.simps [simp del]

subsection \<open>Example products\<close>

text \<open>
  The terms \<open>f(x)\<close>, \<open>g(y)\<close> and \<open>h(x, y)\<close>, and a term \<open>k\<close> that depends on no variable.
\<close>

definition exDep :: "arg \<Rightarrow> arg \<Rightarrow> bool" where
  "exDep t v = ((t, v) \<in> set [(''f'', ''x''), (''g'', ''y''), (''h'', ''x''), (''h'', ''y'')])"

definition exProduct :: "RooArgSet \<Rightarrow> (string \<times> RooArgSet) RooProduct" where
  "exProduct terms = \<lparr>compRSet = terms, compCSet = [], nset = None, cacheMgr = []\<rparr>"

text \<open>
  An integral object is named by the name of its integrand and its integration variables.
\<close>

definition exCreateIntegral ::
  "(string \<times> RooArgSet) absReal \<Rightarrow> RooArgSet \<Rightarrow> string option \<Rightarrow> (string \<times> RooArgSet) option" where
  "exCreateIntegral t vars rangeName =
     (case t of
        Comp a \<Rightarrow> Some (a, vars)
      | SubProd name terms \<Rightarrow> Some (name, vars)
      | Integ i \<Rightarrow> Some (fst i, vars))"

text \<open>
  The product of \<open>f\<close> and \<open>g\<close> after a request for the integral over \<open>x\<close>, and after a
  further request for the integral over \<open>y\<close>.
\<close>

definition exEntryX :: "(string \<times> RooArgSet) CacheElem" where
  "exEntryX = \<lparr>prodList = [Comp ''g'', Integ (''f'', [''x''])], ownedList = [Integ (''f'', [''x''])]\<rparr>"

definition exEntryY :: "(string \<times> RooArgSet) CacheElem" where
  "exEntryY = \<lparr>prodList = [Comp ''f'', Integ (''g'', [''y''])], ownedList = [Integ (''g'', [''y''])]\<rparr>"

definition exSlotX :: "(string \<times> RooArgSet) slot" where
  "exSlotX = \<lparr>key_nset = [''x''], key_iset = [''x''], key_range = None, obj = Some exEntryX\<rparr>"

definition exSlotY :: "(string \<times> RooArgSet) slot" where
  "exSlotY = \<lparr>key_nset = [''y''], key_iset = [''y''], key_range = None, obj = Some exEntryY\<rparr>"

definition exP1 :: "(string \<times> RooArgSet) RooProduct" where
  "exP1 = (exProduct [''f'', ''g''])\<lparr>cacheMgr := [exSlotX]\<rparr>"

definition exP2 :: "(string \<times> RooArgSet) RooProduct" where
  "exP2 = (exProduct [''f'', ''g''])\<lparr>cacheMgr := [exSlotX, exSlotY]\<rparr>"

text \<open>
  The product of \<open>f\<close> and \<open>g\<close> after a request for the integral over \<open>x\<close> and \<open>y\<close>, and
  after a further request for the integral over \<open>x\<close>.
\<close>

definition exEntryXY :: "(string \<times> RooArgSet) CacheElem" where
  "exEntryXY =
     \<lparr>prodList = [Integ (''f'', [''x'']), Integ (''g'', [''y''])],
      ownedList = [Integ (''f'', [''x'']), Integ (''g'', [''y''])]\<rparr>"

definition exSlotXY :: "(string \<times> RooArgSet) slot" where
  "exSlotXY =
     \<lparr>key_nset = [''x'', ''y''], key_iset = [''x'', ''y''], key_range = None,
      obj = Some exEntryXY\<rparr>"

definition exQ1 :: "(string \<times> RooArgSet) RooProduct" where
  "exQ1 = (exProduct [''f'', ''g''])\<lparr>cacheMgr := [exSlotXY]\<rparr>"

definition exQ2 :: "(string \<times> RooArgSet) RooProduct" where
  "exQ2 = (exProduct [''f'', ''g''])\<lparr>cacheMgr := [exSlotXY, exSlotX]\<rparr>"

section \<open>Invariants and states used in the proofs\<close>

text \<open>
  What the two loops over the components compute when the component names are unique:
  the independent terms, and the map before the merge loop.
\<close>

definition indepTerms :: "(arg \<Rightarrow> arg \<Rightarrow> bool) \<Rightarrow> RooArgSet \<Rightarrow> RooArgSet \<Rightarrow> RooArgSet" where
  "indepTerms dep R V = filter (\<lambda>t. \<not> dependsOnSet dep t V) R"

definition initialMap :: "(arg \<Rightarrow> arg \<Rightarrow> bool) \<Rightarrow> RooArgSet \<Rightarrow> RooArgSet \<Rightarrow> ProdMap" where
  "initialMap dep R V =
     (if indepTerms dep R V \<noteq> [] then [([], indepTerms dep R V)] else [])
     @ map (\<lambda>v. ([v], filter (\<lambda>t. dep t v) R)) V"

text \<open>No two groups at different positions share a term.\<close>

definition noOverlap :: "ProdMap \<Rightarrow> bool" where
  "noOverlap m \<longleftrightarrow>
     (\<forall>a b. a < b \<longrightarrow> b < length m \<longrightarrow> \<not> overlaps (snd (m ! a)) (snd (m ! b)))"

definition groupsInv :: "RooArgSet \<Rightarrow> RooArgSet \<Rightarrow> ProdMap \<Rightarrow> bool" where
  "groupsInv R V m \<longleftrightarrow>
     mset (concat (map fst m)) = mset V \<and>
     (\<forall>g \<in> set m. distinct (snd g)) \<and>
     (\<Union>g \<in> set m. set (snd g)) = set R"

text \<open>The group of the independent terms stays first and stays as it is.\<close>

definition indepFirst :: "RooArgSet \<Rightarrow> ProdMap \<Rightarrow> bool" where
  "indepFirst I m \<longleftrightarrow>
     (\<exists>rest. m = ([], I) # rest \<and> (\<forall>g \<in> set rest. fst g \<noteq> [] \<and> set (snd g) \<inter> set I = {}))"

text \<open>
  What the grouper keeps of every group: the variables are variables of the request and
  the terms are real terms; a term of a group with variables depends on one of them, and a
  term of a group without variables depends on no variable of the request; every real
  term that depends on a variable of the group is in the group; and the variables of the
  group cannot be split in two parts without a real term that depends on a variable of
  each part.
\<close>

definition connected :: "(arg \<Rightarrow> arg \<Rightarrow> bool) \<Rightarrow> RooArgSet \<Rightarrow> arg set \<Rightarrow> bool" where
  "connected dep R W \<longleftrightarrow>
     (\<forall>A. A \<noteq> {} \<longrightarrow> A \<subset> W \<longrightarrow> (\<exists>t \<in> set R. \<exists>a \<in> A. \<exists>b \<in> W - A. dep t a \<and> dep t b))"

definition groupOk ::
  "(arg \<Rightarrow> arg \<Rightarrow> bool) \<Rightarrow> RooArgSet \<Rightarrow> RooArgSet \<Rightarrow> RooArgSet \<times> RooArgSet \<Rightarrow> bool" where
  "groupOk dep R V g \<longleftrightarrow>
     distinct (fst g) \<and> set (fst g) \<subseteq> set V \<and> set (snd g) \<subseteq> set R \<and>
     (\<forall>t \<in> set (snd g). if fst g = [] then \<not> (\<exists>v \<in> set V. dep t v)
                          else (\<exists>v \<in> set (fst g). dep t v)) \<and>
     (\<forall>v \<in> set (fst g). \<forall>t \<in> set R. dep t v \<longrightarrow> t \<in> set (snd g)) \<and>
     connected dep R (set (fst g))"

definition slotKey :: "'i slot \<Rightarrow> arg set \<times> arg set \<times> string option" where
  "slotKey s = (normalized (key_nset s), normalized (key_iset s), key_range s)"

text \<open>
  What holds of every slot of the cache of a product: the slot was made by a
  \<^verbatim>\<open>getPartIntList\<close> that found at least two groups and built an entry, and it holds
  that entry or is sterilized.
\<close>

definition slotInv ::
  "(arg \<Rightarrow> arg \<Rightarrow> bool) \<Rightarrow> ('i absReal \<Rightarrow> RooArgSet \<Rightarrow> string option \<Rightarrow> 'i option) \<Rightarrow>
   'i RooProduct \<Rightarrow> 'i slot \<Rightarrow> bool" where
  "slotInv dep createIntegral P s \<longleftrightarrow>
     key_nset s = key_iset s \<and> distinct (key_iset s) \<and>
     (\<exists>m e. groupProductTerms dep P (key_iset s) = Inr m \<and> 2 \<le> length m \<and>
            getPartIntList_loop createIntegral (key_range s) m \<lparr>prodList = [], ownedList = []\<rparr> = Inr e \<and>
            (obj s = None \<or> obj s = Some e))"

definition cacheInv ::
  "(arg \<Rightarrow> arg \<Rightarrow> bool) \<Rightarrow> ('i absReal \<Rightarrow> RooArgSet \<Rightarrow> string option \<Rightarrow> 'i option) \<Rightarrow>
   'i RooProduct \<Rightarrow> bool" where
  "cacheInv dep createIntegral P \<longleftrightarrow>
     distinct (compRSet P) \<and> distinct (map slotKey (cacheMgr P)) \<and>
     (\<forall>s \<in> set (cacheMgr P). slotInv dep createIntegral P s)"

text \<open>
  The states of a product: it starts with an empty cache, and its cache changes by
  \<^verbatim>\<open>getPartIntList\<close> (which \<^verbatim>\<open>analyticalIntegral\<close> calls too) and by sterilization.
  The component names of the product and the names of a requested variable set are unique.
\<close>

inductive reachable ::
  "(arg \<Rightarrow> arg \<Rightarrow> bool) \<Rightarrow> ('i absReal \<Rightarrow> RooArgSet \<Rightarrow> string option \<Rightarrow> 'i option) \<Rightarrow>
   'i RooProduct \<Rightarrow> bool"
  for dep createIntegral where
    fresh: "distinct (compRSet P) \<Longrightarrow> cacheMgr P = [] \<Longrightarrow> reachable dep createIntegral P"
  | request: "reachable dep createIntegral P \<Longrightarrow> distinct iset \<Longrightarrow>
       getPartIntList dep createIntegral P iset isetRange = Inr (code, P') \<Longrightarrow>
       reachable dep createIntegral P'"
  | sterilized: "reachable dep createIntegral P \<Longrightarrow>
       reachable dep createIntegral (P\<lparr>cacheMgr := sterilize (cacheMgr P)\<rparr>)"

text \<open>Further requests to a product, with no sterilization in between.\<close>

inductive requests ::
  "(arg \<Rightarrow> arg \<Rightarrow> bool) \<Rightarrow> ('i absReal \<Rightarrow> RooArgSet \<Rightarrow> string option \<Rightarrow> 'i option) \<Rightarrow>
   'i RooProduct \<Rightarrow> 'i RooProduct \<Rightarrow> bool"
  for dep createIntegral where
    none: "requests dep createIntegral P P"
  | more: "requests dep createIntegral P P' \<Longrightarrow>
       getPartIntList dep createIntegral P' iset isetRange = Inr (code, P'') \<Longrightarrow>
       requests dep createIntegral P P''"

section \<open>Lemmas\<close>

subsection \<open>The term grouper and the loop over its groups\<close>

lemma set_add: "set (add s a) = insert a (set s)"
  by (auto simp: add_def)

lemma distinct_add: "distinct s \<Longrightarrow> distinct (add s a)"
  by (simp add: add_def)

lemma set_addSet: "set (addSet s t) = set s \<union> set t"
  unfolding addSet_def by (induction t arbitrary: s) (auto simp: set_add)

lemma distinct_addSet: "distinct s \<Longrightarrow> distinct (addSet s t)"
  unfolding addSet_def by (induction t arbitrary: s) (auto simp: distinct_add)

lemma addSet_disjoint:
  "distinct t \<Longrightarrow> set s \<inter> set t = {} \<Longrightarrow> addSet s t = s @ t"
  unfolding addSet_def
proof (induction t arbitrary: s)
  case Nil
  then show ?case by simp
next
  case (Cons a t)
  then have "add s a = s @ [a]" by (simp add: add_def)
  moreover have "foldl add (s @ [a]) t = (s @ [a]) @ t"
    using Cons.prems by (intro Cons.IH) auto
  ultimately show ?case by simp
qed

lemma overlaps_iff: "overlaps s t \<longleftrightarrow> set s \<inter> set t \<noteq> {}"
  by (auto simp: overlaps_def list_ex_iff)

lemma foldl_add_filter:
  "distinct xs \<Longrightarrow> set acc \<inter> set xs = {} \<Longrightarrow>
   foldl (\<lambda>s x. if p x then add s x else s) acc xs = acc @ filter p xs"
proof (induction xs arbitrary: acc)
  case Nil
  then show ?case by simp
next
  case (Cons x xs)
  show ?case
  proof (cases "p x")
    case True
    have "add acc x = acc @ [x]" using Cons.prems by (simp add: add_def)
    moreover have "foldl (\<lambda>s x. if p x then add s x else s) (acc @ [x]) xs = (acc @ [x]) @ filter p xs"
      using Cons.prems by (intro Cons.IH) auto
    ultimately show ?thesis using True by simp
  next
    case False
    have "foldl (\<lambda>s x. if p x then add s x else s) acc xs = acc @ filter p xs"
      using Cons.prems by (intro Cons.IH) auto
    then show ?thesis using False by simp
  qed
qed

lemma foldl_snoc_map: "foldl (\<lambda>m v. m @ [f v]) m0 vs = m0 @ map f vs"
  by (induction vs arbitrary: m0) auto

lemma groupProductTerms_unfold:
  assumes "distinct (compRSet P)"
  shows "groupProductTerms dep P V =
     (let m = mergeLoop (initialMap dep (compRSet P) V) in
      if sum_list (map (\<lambda>g. length (fst g)) m) \<noteq> length V then Inl AssertionFailed
      else if sum_list (map (\<lambda>g. length (snd g)) m) \<noteq> length (compRSet P) then Inl AssertionFailed
      else Inr m)"
  using assms
  by (simp add: groupProductTerms_def Let_def foldl_add_filter [where acc = "[]", simplified] 
      foldl_snoc_map getSize_def add_def initialMap_def indepTerms_def)

lemma split_two_positions:
  assumes "i < j" "j < length m"
  obtains A B C where "m = A @ m ! i # B @ m ! j # C" "length A = i" "length (A @ m ! i # B) = j"
proof -
  have i: "i < length m" using assms by simp
  define D where "D = drop (Suc i) m"
  have m1: "m = take i m @ m ! i # D"
    unfolding D_def using i by (rule id_take_nth_drop)
  have jD: "j - Suc i < length D" using assms by (simp add: D_def)
  have Dj: "D ! (j - Suc i) = m ! j" using assms by (simp add: D_def)
  have "D = take (j - Suc i) D @ D ! (j - Suc i) # drop (Suc (j - Suc i)) D"
    using jD by (rule id_take_nth_drop)
  with Dj have m2: "D = take (j - Suc i) D @ m ! j # drop (Suc (j - Suc i)) D" by simp
  show thesis
  proof (rule that [of "take i m" "take (j - Suc i) D" "drop (Suc (j - Suc i)) D"])
    show "m = take i m @ m ! i # take (j - Suc i) D @ m ! j # drop (Suc (j - Suc i)) D"
      using m1 m2 by simp
    show "length (take i m) = i" using i by simp
    show "length (take i m @ m ! i # take (j - Suc i) D) = j"
      using assms jD by simp
  qed
qed

lemma mergeAt_split:
  assumes "m = A @ gi # B @ gj # C" "length A = i" "length (A @ gi # B) = j"
  shows "mergeAt m i j = A @ (addSet (fst gi) (fst gj), addSet (snd gi) (snd gj)) # B @ C"
proof -
  have mi: "m ! i = gi" using assms by (simp add: nth_append)
  have mj: "m ! j = gj"
  proof -
    have "m = (A @ gi # B) @ gj # C" using assms by simp
    then show ?thesis using assms(3) by (metis nth_append_length)
  qed
  have upd: "m[i := x] = (A @ x # B) @ gj # C" for x
    using assms by (simp add: list_update_append)
  have len: "length (A @ x # B) = j" for x using assms by simp
  have "erase ((A @ x # B) @ gj # C) j = A @ x # B @ C" for x
    unfolding erase_def using len [of x] by (simp del: append_assoc add: append_assoc [symmetric])
  then show ?thesis unfolding mergeAt_def mi mj upd by simp
qed

lemma findOverlap2nd_j_Some:
  "findOverlap2nd_j si gs j = Some k \<Longrightarrow> overlaps si (snd (gs ! (k - j)))"
proof (induction gs arbitrary: j)
  case Nil
  then show ?case by simp
next
  case (Cons g gs)
  show ?case
  proof (cases "overlaps si (snd g)")
    case True
    with Cons.prems show ?thesis by simp
  next
    case False
    with Cons.prems have r: "findOverlap2nd_j si gs (Suc j) = Some k" by simp
    from findOverlap2nd_j_bounds [OF r] have "Suc j \<le> k" by simp
    then have "k - j = Suc (k - Suc j)" by simp
    with Cons.IH [OF r] show ?thesis by simp
  qed
qed

lemma findOverlap2nd_j_None:
  "findOverlap2nd_j si gs j = None \<Longrightarrow> g \<in> set gs \<Longrightarrow> \<not> overlaps si (snd g)"
  by (induction gs arbitrary: j) (auto split: if_splits)

lemma findOverlap2nd_Some:
  "findOverlap2nd gs i = Some (a, b) \<Longrightarrow> overlaps (snd (gs ! (a - i))) (snd (gs ! (b - i)))"
proof (induction gs arbitrary: i)
  case Nil
  then show ?case by simp
next
  case (Cons g gs)
  show ?case
  proof (cases "findOverlap2nd_j (snd g) gs (Suc i)")
    case None
    with Cons.prems have r: "findOverlap2nd gs (Suc i) = Some (a, b)" by simp
    from findOverlap2nd_bounds [OF r] have "Suc i \<le> a" "Suc i \<le> b" by simp_all
    then have "a - i = Suc (a - Suc i)" "b - i = Suc (b - Suc i)" by simp_all
    with Cons.IH [OF r] show ?thesis by simp
  next
    case (Some j)
    with Cons.prems have ab: "a = i" "b = j" by simp_all
    from findOverlap2nd_j_bounds [OF Some] have "Suc i \<le> j" by simp
    then have "j - i = Suc (j - Suc i)" by simp
    with findOverlap2nd_j_Some [OF Some] ab show ?thesis by simp
  qed
qed

lemma findOverlap2nd_None:
  "findOverlap2nd gs i = None \<Longrightarrow> a < b \<Longrightarrow> b < length gs \<Longrightarrow>
   \<not> overlaps (snd (gs ! a)) (snd (gs ! b))"
proof (induction gs arbitrary: i a b)
  case Nil
  then show ?case by simp
next
  case (Cons g gs)
  from Cons.prems(1) have j: "findOverlap2nd_j (snd g) gs (Suc i) = None"
    and r: "findOverlap2nd gs (Suc i) = None"
    by (auto split: option.splits)
  from Cons.prems(2) obtain b' where b: "b = Suc b'" by (cases b) auto
  show ?case
  proof (cases a)
    case 0
    have "gs ! b' \<in> set gs" using Cons.prems(3) b by simp
    from findOverlap2nd_j_None [OF j this] show ?thesis using 0 b by simp
  next
    case (Suc a')
    have "\<not> overlaps (snd (gs ! a')) (snd (gs ! b'))"
      using Cons.prems(2,3) b Suc by (intro Cons.IH [OF r]) auto
    then show ?thesis using Suc b by simp
  qed
qed

lemma mergeLoop_noOverlap: "noOverlap (mergeLoop m)"
proof (induction m rule: mergeLoop.induct)
  case (1 m)
  show ?case
  proof (cases "findOverlap2nd m 0")
    case None
    then have "mergeLoop m = m" by (simp add: mergeLoop.simps [of m])
    moreover have "noOverlap m"
      unfolding noOverlap_def using findOverlap2nd_None [OF None] by blast
    ultimately show ?thesis by simp
  next
    case (Some ij)
    then have "mergeLoop m = mergeLoop (mergeAt m (fst ij) (snd ij))"
      by (simp add: mergeLoop.simps [of m])
    with "1.IH" [OF Some] show ?thesis by simp
  qed
qed

lemma groupsInv_initialMap:
  assumes "distinct R"
  shows "groupsInv R V (initialMap dep R V)"
proof -
  have c: "concat (map (fst \<circ> (\<lambda>v. ([v], filter (\<lambda>t. dep t v) R))) V) = V"
    by (induction V) auto
  have 1: "mset (concat (map fst (initialMap dep R V))) = mset V"
    using c by (simp add: initialMap_def)
  have 2: "\<forall>g \<in> set (initialMap dep R V). distinct (snd g)"
    using assms by (auto simp: initialMap_def indepTerms_def)
  have 3: "(\<Union>g \<in> set (initialMap dep R V). set (snd g)) = set R"
  proof
    show "(\<Union>g \<in> set (initialMap dep R V). set (snd g)) \<subseteq> set R"
      by (auto simp: initialMap_def indepTerms_def split: if_splits)
    show "set R \<subseteq> (\<Union>g \<in> set (initialMap dep R V). set (snd g))"
    proof
      fix t assume t: "t \<in> set R"
      show "t \<in> (\<Union>g \<in> set (initialMap dep R V). set (snd g))"
      proof (cases "dependsOnSet dep t V")
        case True
        then obtain v where "v \<in> set V" "dep t v"
          by (auto simp: dependsOnSet_def list_ex_iff)
        then have "([v], filter (\<lambda>t. dep t v) R) \<in> set (initialMap dep R V)"
          by (simp add: initialMap_def)
        moreover have "t \<in> set (filter (\<lambda>t. dep t v) R)" using t \<open>dep t v\<close> by simp
        ultimately show ?thesis by force
      next
        case False
        then have ti: "t \<in> set (indepTerms dep R V)" using t by (simp add: indepTerms_def)
        then have "indepTerms dep R V \<noteq> []" by auto
        then have "([], indepTerms dep R V) \<in> set (initialMap dep R V)"
          by (simp add: initialMap_def)
        with ti show ?thesis by force
      qed
    qed
  qed
  from 1 2 3 show ?thesis by (simp add: groupsInv_def)
qed

lemma groupsInv_mergeAt:
  assumes inv: "groupsInv R V m" and V: "distinct V" and ij: "i < j" "j < length m"
  shows "groupsInv R V (mergeAt m i j)"
proof -
  from ij obtain A B C where m: "m = A @ m ! i # B @ m ! j # C"
    and len: "length A = i" "length (A @ m ! i # B) = j"
    by (rule split_two_positions)
  define gi where "gi = m ! i"
  define gj where "gj = m ! j"
  have m': "m = A @ gi # B @ gj # C" using m by (simp add: gi_def gj_def)
  have ma: "mergeAt m i j = A @ (addSet (fst gi) (fst gj), addSet (snd gi) (snd gj)) # B @ C"
    using m' len unfolding gi_def gj_def by (rule mergeAt_split)
  from inv have v: "mset (concat (map fst m)) = mset V"
    and d: "\<forall>g \<in> set m. distinct (snd g)"
    and u: "(\<Union>g \<in> set m. set (snd g)) = set R"
    by (simp_all add: groupsInv_def)
  have "distinct (concat (map fst m))"
    using v V by (metis mset_eq_imp_distinct_iff)
  then have dc: "distinct (concat (map fst A) @ fst gi @ concat (map fst B) @ fst gj @ concat (map fst C))"
    by (subst (asm) m') simp
  then have "distinct (fst gj)" "set (fst gi) \<inter> set (fst gj) = {}" by auto
  then have app: "addSet (fst gi) (fst gj) = fst gi @ fst gj" by (rule addSet_disjoint)
  have 1: "mset (concat (map fst (mergeAt m i j))) = mset V"
  proof -
    have "mset (concat (map fst (mergeAt m i j))) = mset (concat (map fst m))"
      by (subst (2) m') (simp add: ma app)
    with v show ?thesis by simp
  qed
  have gi_in: "gi \<in> set m" and gj_in: "gj \<in> set m" by (subst m', simp)+
  have 2: "\<forall>g \<in> set (mergeAt m i j). distinct (snd g)"
  proof
    fix g assume "g \<in> set (mergeAt m i j)"
    moreover have "set m = set A \<union> {gi} \<union> set B \<union> {gj} \<union> set C"
      by (subst m') auto
    ultimately consider "g = (addSet (fst gi) (fst gj), addSet (snd gi) (snd gj))" | "g \<in> set m"
      unfolding ma by auto
    then show "distinct (snd g)"
    proof cases
      case 1
      then show ?thesis using d gi_in by (simp add: distinct_addSet)
    next
      case 2
      then show ?thesis using d by simp
    qed
  qed
  have 3: "(\<Union>g \<in> set (mergeAt m i j). set (snd g)) = set R"
  proof -
    have "(\<Union>g \<in> set (mergeAt m i j). set (snd g)) = (\<Union>g \<in> set m. set (snd g))"
      by (subst (2) m') (auto simp: ma set_addSet)
    with u show ?thesis by simp
  qed
  from 1 2 3 show ?thesis by (simp add: groupsInv_def)
qed

lemma groupsInv_mergeLoop:
  "groupsInv R V m \<Longrightarrow> distinct V \<Longrightarrow> groupsInv R V (mergeLoop m)"
proof (induction m rule: mergeLoop.induct)
  case (1 m)
  show ?case
  proof (cases "findOverlap2nd m 0")
    case None
    then have "mergeLoop m = m" by (simp add: mergeLoop.simps [of m])
    with "1.prems" show ?thesis by simp
  next
    case (Some ij)
    then have eq: "mergeLoop m = mergeLoop (mergeAt m (fst ij) (snd ij))"
      by (simp add: mergeLoop.simps [of m])
    from Some have "findOverlap2nd m 0 = Some (fst ij, snd ij)" by simp
    from findOverlap2nd_bounds [OF this] have "fst ij < snd ij" "snd ij < length m" by simp_all
    with "1.prems" have "groupsInv R V (mergeAt m (fst ij) (snd ij))"
      by (intro groupsInv_mergeAt)
    from "1.IH" [OF Some this "1.prems"(2)] eq show ?thesis by simp
  qed
qed

lemma noOverlap_Cons:
  "noOverlap (g # gs) \<Longrightarrow> noOverlap gs \<and> (\<forall>h \<in> set gs. \<not> overlaps (snd g) (snd h))"
proof
  assume n: "noOverlap (g # gs)"
  show "noOverlap gs"
    unfolding noOverlap_def
  proof (intro allI impI)
    fix a b assume "a < b" "b < length gs"
    then have "Suc a < Suc b" "Suc b < length (g # gs)" by simp_all
    with n have "\<not> overlaps (snd ((g # gs) ! Suc a)) (snd ((g # gs) ! Suc b))"
      unfolding noOverlap_def by blast
    then show "\<not> overlaps (snd (gs ! a)) (snd (gs ! b))" by simp
  qed
  show "\<forall>h \<in> set gs. \<not> overlaps (snd g) (snd h)"
  proof
    fix h assume "h \<in> set gs"
    then obtain b where b: "b < length gs" "gs ! b = h" by (auto simp: in_set_conv_nth)
    then have "0 < Suc b" "Suc b < length (g # gs)" by simp_all
    with n have "\<not> overlaps (snd ((g # gs) ! 0)) (snd ((g # gs) ! Suc b))"
      unfolding noOverlap_def by blast
    with b show "\<not> overlaps (snd g) (snd h)" by simp
  qed
qed

lemma noOverlap_distinct_concat:
  "\<forall>g \<in> set m. distinct (snd g) \<Longrightarrow> noOverlap m \<Longrightarrow> distinct (concat (map snd m))"
proof (induction m)
  case Nil
  then show ?case by simp
next
  case (Cons g gs)
  from noOverlap_Cons [OF Cons.prems(2)]
  have n: "noOverlap gs" and o: "\<forall>h \<in> set gs. \<not> overlaps (snd g) (snd h)" by simp_all
  have "distinct (concat (map snd gs))" using Cons.prems(1) n by (intro Cons.IH) auto
  moreover have "distinct (snd g)" using Cons.prems(1) by simp
  moreover have "set (snd g) \<inter> set (concat (map snd gs)) = {}"
    using o by (auto simp: overlaps_iff)
  ultimately show ?case by simp
qed

lemma distinct_concat_nth_disjoint:
  "distinct (concat xss) \<Longrightarrow> a < b \<Longrightarrow> b < length xss \<Longrightarrow> set (xss ! a) \<inter> set (xss ! b) = {}"
proof (induction xss arbitrary: a b)
  case Nil
  then show ?case by simp
next
  case (Cons xs xss)
  from Cons.prems(2) obtain b' where b: "b = Suc b'" by (cases b) auto
  show ?case
  proof (cases a)
    case 0
    have "xss ! b' \<in> set xss" using Cons.prems(3) b by simp
    then have "set (xss ! b') \<subseteq> set (concat xss)" by auto
    moreover have "set xs \<inter> set (concat xss) = {}" using Cons.prems(1) by simp
    ultimately show ?thesis using 0 b by auto
  next
    case (Suc a')
    have "set (xss ! a') \<inter> set (xss ! b') = {}"
      using Cons.prems b Suc by (intro Cons.IH) auto
    then show ?thesis using Suc b by simp
  qed
qed

lemma length_concat_sum: "length (concat (map f m)) = sum_list (map (\<lambda>g. length (f g)) m)"
  by (induction m) auto

text \<open>The facts about the map after the merge loop.\<close>

lemma mergeLoop_facts:
  fixes dep :: "arg \<Rightarrow> arg \<Rightarrow> bool"
  assumes R: "distinct R" and V: "distinct V"
  defines "m \<equiv> mergeLoop (initialMap dep R V)"
  shows "mset (concat (map fst m)) = mset V"
    and "distinct (concat (map snd m))"
    and "set (concat (map snd m)) = set R"
    and "noOverlap m"
proof -
  have inv: "groupsInv R V m"
    unfolding m_def using groupsInv_initialMap [OF R] V by (rule groupsInv_mergeLoop)
  show no: "noOverlap m" unfolding m_def by (rule mergeLoop_noOverlap)
  from inv show "mset (concat (map fst m)) = mset V" by (simp add: groupsInv_def)
  from inv have "\<forall>g \<in> set m. distinct (snd g)" by (simp add: groupsInv_def)
  then show "distinct (concat (map snd m))" using no by (rule noOverlap_distinct_concat)
  from inv show "set (concat (map snd m)) = set R" by (simp add: groupsInv_def)
qed

lemma groupProductTerms_eq:
  assumes R: "distinct (compRSet P)" and V: "distinct V"
  shows "groupProductTerms dep P V = Inr (mergeLoop (initialMap dep (compRSet P) V))"
proof -
  define R where "R = compRSet P"
  note R = R [folded R_def]
  define m where "m = mergeLoop (initialMap dep R V)"
  note f = mergeLoop_facts [OF R V, of dep, folded m_def]
  have "length (concat (map fst m)) = length V"
    using f(1) by (metis size_mset)
  then have nVar: "sum_list (map (\<lambda>g. length (fst g)) m) = length V"
    by (simp add: length_concat_sum)
  have "length (concat (map snd m)) = length R"
    using f(2,3) R by (metis distinct_card)
  then have nFunc: "sum_list (map (\<lambda>g. length (snd g)) m) = length R"
    by (simp add: length_concat_sum)
  show ?thesis
    unfolding groupProductTerms_unfold [OF assms(1)] R_def [symmetric] m_def [symmetric]
    using nVar nFunc by (simp add: Let_def)
qed

lemma set_mergeAt:
  assumes "i < j" "j < length m"
  shows "set (mergeAt m i j) =
           insert (addSet (fst (m ! i)) (fst (m ! j)), addSet (snd (m ! i)) (snd (m ! j)))
             (set (take i m) \<union> set (take (j - Suc i) (drop (Suc i) m)) \<union> set (drop (Suc j) m))"
    and "set (take i m) \<union> set (take (j - Suc i) (drop (Suc i) m)) \<union> set (drop (Suc j) m) \<subseteq> set m"
proof -
  from assms obtain A B C where m: "m = A @ m ! i # B @ m ! j # C"
    and len: "length A = i" "length (A @ m ! i # B) = j"
    by (rule split_two_positions)
  define gi where "gi = m ! i"
  define gj where "gj = m ! j"
  have m': "m = A @ gi # B @ gj # C" using m by (simp add: gi_def gj_def)
  have ma: "mergeAt m i j = A @ (addSet (fst gi) (fst gj), addSet (snd gi) (snd gj)) # B @ C"
    using m' len unfolding gi_def gj_def by (rule mergeAt_split)
  have lB: "length B = j - Suc i" using len by auto
  have tA: "take i m = A" by (subst m') (simp add: len)
  have dA: "drop (Suc i) m = B @ gj # C" by (subst m') (simp add: len)
  have tB: "take (j - Suc i) (drop (Suc i) m) = B" unfolding dA by (simp add: lB)
  have "m = (A @ gi # B) @ gj # C" using m' by simp
  then have "drop (Suc j) m = drop (Suc (length (A @ gi # B))) ((A @ gi # B) @ gj # C)"
    using len(2) by (simp add: gi_def)
  then have dC: "drop (Suc j) m = C" by simp
  show "set (mergeAt m i j) =
           insert (addSet (fst (m ! i)) (fst (m ! j)), addSet (snd (m ! i)) (snd (m ! j)))
             (set (take i m) \<union> set (take (j - Suc i) (drop (Suc i) m)) \<union> set (drop (Suc j) m))"
    unfolding tA tB dC ma gi_def gj_def by auto
  have "set A \<union> set B \<union> set C \<subseteq> set m" by (subst m') auto
  then show "set (take i m) \<union> set (take (j - Suc i) (drop (Suc i) m)) \<union> set (drop (Suc j) m) \<subseteq> set m"
    unfolding tA tB dC .
qed

lemma mergeAt_subset:
  assumes "i < j" "j < length m"
  shows "set (mergeAt m i j) \<subseteq>
           insert (addSet (fst (m ! i)) (fst (m ! j)), addSet (snd (m ! i)) (snd (m ! j))) (set m)"
  using set_mergeAt [OF assms] by auto

lemma mergeAt_keeps:
  assumes ij: "i < j" "j < length m" and g: "g \<in> set m" "g \<noteq> m ! i" "g \<noteq> m ! j"
  shows "g \<in> set (mergeAt m i j)"
proof -
  from ij obtain A B C where m: "m = A @ m ! i # B @ m ! j # C"
    and len: "length A = i" "length (A @ m ! i # B) = j"
    by (rule split_two_positions)
  have ma: "mergeAt m i j = A @ (addSet (fst (m ! i)) (fst (m ! j)), addSet (snd (m ! i)) (snd (m ! j))) # B @ C"
    using m len by (rule mergeAt_split)
  have "set m = set A \<union> {m ! i} \<union> set B \<union> {m ! j} \<union> set C"
    by (subst m) auto
  with g have "g \<in> set A \<union> set B \<union> set C" by auto
  then show ?thesis unfolding ma by auto
qed

text \<open>A group without terms is never merged.\<close>

lemma mergeLoop_keeps_empty:
  "g \<in> set m \<Longrightarrow> snd g = [] \<Longrightarrow> g \<in> set (mergeLoop m)"
proof (induction m rule: mergeLoop.induct)
  case (1 m)
  show ?case
  proof (cases "findOverlap2nd m 0")
    case None
    then have "mergeLoop m = m" by (simp add: mergeLoop.simps [of m])
    with "1.prems" show ?thesis by simp
  next
    case (Some ij)
    then have eq: "mergeLoop m = mergeLoop (mergeAt m (fst ij) (snd ij))"
      by (simp add: mergeLoop.simps [of m])
    from Some have s: "findOverlap2nd m 0 = Some (fst ij, snd ij)" by simp
    from findOverlap2nd_bounds [OF s] have b: "fst ij < snd ij" "snd ij < length m" by simp_all
    from findOverlap2nd_Some [OF s] have "overlaps (snd (m ! fst ij)) (snd (m ! snd ij))" by simp
    then have "snd (m ! fst ij) \<noteq> []" "snd (m ! snd ij) \<noteq> []"
      by (auto simp: overlaps_iff)
    with "1.prems" have "g \<noteq> m ! fst ij" "g \<noteq> m ! snd ij" by auto
    with b "1.prems" have "g \<in> set (mergeAt m (fst ij) (snd ij))" by (intro mergeAt_keeps)
    from "1.IH" [OF Some this "1.prems"(2)] eq show ?thesis by simp
  qed
qed

text \<open>Groups with terms stay groups with terms.\<close>

lemma mergeLoop_nonempty:
  "\<forall>g \<in> set m. snd g \<noteq> [] \<Longrightarrow> \<forall>g \<in> set (mergeLoop m). snd g \<noteq> []"
proof (induction m rule: mergeLoop.induct)
  case (1 m)
  show ?case
  proof (cases "findOverlap2nd m 0")
    case None
    then have "mergeLoop m = m" by (simp add: mergeLoop.simps [of m])
    with "1.prems" show ?thesis by simp
  next
    case (Some ij)
    then have eq: "mergeLoop m = mergeLoop (mergeAt m (fst ij) (snd ij))"
      by (simp add: mergeLoop.simps [of m])
    from Some have s: "findOverlap2nd m 0 = Some (fst ij, snd ij)" by simp
    from findOverlap2nd_bounds [OF s] have b: "fst ij < snd ij" "snd ij < length m" by simp_all
    then have "m ! fst ij \<in> set m" by simp
    with "1.prems" have "set (snd (m ! fst ij)) \<noteq> {}" by simp
    then have "addSet (snd (m ! fst ij)) (snd (m ! snd ij)) \<noteq> []"
      by (metis Un_empty set_addSet set_empty)
    with mergeAt_subset [OF b] "1.prems"
    have "\<forall>g \<in> set (mergeAt m (fst ij) (snd ij)). snd g \<noteq> []" by auto
    from "1.IH" [OF Some this] eq show ?thesis by simp
  qed
qed

lemma mergeAt_Suc: "mergeAt (g # rest) (Suc i) (Suc j) = g # mergeAt rest i j"
  by (simp add: mergeAt_def erase_def)

lemma indepFirst_mergeAt:
  assumes inv: "indepFirst I m" and ij: "i < j" "j < length m"
    and ov: "overlaps (snd (m ! i)) (snd (m ! j))"
  shows "indepFirst I (mergeAt m i j)"
proof -
  from inv obtain rest where m: "m = ([], I) # rest"
    and rest: "\<forall>g \<in> set rest. fst g \<noteq> [] \<and> set (snd g) \<inter> set I = {}"
    by (auto simp: indepFirst_def)
  from ij obtain j' where j: "j = Suc j'" by (cases j) auto
  have j'len: "j' < length rest" using ij m j by simp
  have "i \<noteq> 0"
  proof
    assume "i = 0"
    then have "snd (m ! i) = I" using m by simp
    moreover have "rest ! j' \<in> set rest" using j'len by simp
    then have "set (snd (m ! j)) \<inter> set I = {}" using rest m j by simp
    ultimately show False using ov by (auto simp: overlaps_iff)
  qed
  then obtain i' where i: "i = Suc i'" by (cases i) auto
  have ij': "i' < j'" using ij i j by simp
  have ma: "mergeAt m i j = ([], I) # mergeAt rest i' j'"
    unfolding m i j by (rule mergeAt_Suc)
  have gi: "rest ! i' \<in> set rest" and gj: "rest ! j' \<in> set rest"
    using ij' j'len by simp_all
  have "fst g \<noteq> [] \<and> set (snd g) \<inter> set I = {}" if "g \<in> set (mergeAt rest i' j')" for g
  proof -
    from that mergeAt_subset [OF ij' j'len]
    consider "g = (addSet (fst (rest ! i')) (fst (rest ! j')), addSet (snd (rest ! i')) (snd (rest ! j')))"
      | "g \<in> set rest" by auto
    then show ?thesis
    proof cases
      case 1
      have "set (fst (rest ! i')) \<noteq> {}" using rest gi by simp
      then have "set (fst g) \<noteq> {}" unfolding 1 by (simp add: set_addSet)
      moreover have "set (snd g) \<inter> set I = {}"
        unfolding 1 using rest gi gj by (auto simp: set_addSet)
      ultimately show ?thesis by auto
    next
      case 2
      with rest show ?thesis by simp
    qed
  qed
  then show ?thesis unfolding ma indepFirst_def by simp
qed

lemma indepFirst_mergeLoop: "indepFirst I m \<Longrightarrow> indepFirst I (mergeLoop m)"
proof (induction m rule: mergeLoop.induct)
  case (1 m)
  show ?case
  proof (cases "findOverlap2nd m 0")
    case None
    then have "mergeLoop m = m" by (simp add: mergeLoop.simps [of m])
    with "1.prems" show ?thesis by simp
  next
    case (Some ij)
    then have eq: "mergeLoop m = mergeLoop (mergeAt m (fst ij) (snd ij))"
      by (simp add: mergeLoop.simps [of m])
    from Some have s: "findOverlap2nd m 0 = Some (fst ij, snd ij)" by simp
    from findOverlap2nd_bounds [OF s] have b: "fst ij < snd ij" "snd ij < length m" by simp_all
    from findOverlap2nd_Some [OF s] have "overlaps (snd (m ! fst ij)) (snd (m ! snd ij))" by simp
    with "1.prems" b have "indepFirst I (mergeAt m (fst ij) (snd ij))"
      by (intro indepFirst_mergeAt)
    from "1.IH" [OF Some this] eq show ?thesis by simp
  qed
qed

lemma indepFirst_initialMap:
  assumes "indepTerms dep R V \<noteq> []"
  shows "indepFirst (indepTerms dep R V) (initialMap dep R V)"
proof -
  have "fst g \<noteq> [] \<and> set (snd g) \<inter> set (indepTerms dep R V) = {}"
    if "g \<in> set (map (\<lambda>v. ([v], filter (\<lambda>t. dep t v) R)) V)" for g
  proof -
    from that obtain v where v: "v \<in> set V" and g: "g = ([v], filter (\<lambda>t. dep t v) R)" by auto
    have "dependsOnSet dep t V" if "dep t v" for t
      using that v by (auto simp: dependsOnSet_def list_ex_iff)
    then show ?thesis unfolding g by (auto simp: indepTerms_def)
  qed
  then show ?thesis using assms by (simp add: indepFirst_def initialMap_def)
qed

text \<open>
  A property of single groups is kept by the merge loop when the merge of two overlapping
  groups keeps it.
\<close>

lemma mergeLoop_all:
  assumes "\<forall>g \<in> set m. Q g"
    and step: "\<And>gi gj. Q gi \<Longrightarrow> Q gj \<Longrightarrow> overlaps (snd gi) (snd gj) \<Longrightarrow>
      Q (addSet (fst gi) (fst gj), addSet (snd gi) (snd gj))"
  shows "\<forall>g \<in> set (mergeLoop m). Q g"
  using assms(1)
proof (induction m rule: mergeLoop.induct)
  case (1 m)
  show ?case
  proof (cases "findOverlap2nd m 0")
    case None
    then have "mergeLoop m = m" by (simp add: mergeLoop.simps [of m])
    with "1.prems" show ?thesis by simp
  next
    case (Some ij)
    then have eq: "mergeLoop m = mergeLoop (mergeAt m (fst ij) (snd ij))"
      by (simp add: mergeLoop.simps [of m])
    from Some have s: "findOverlap2nd m 0 = Some (fst ij, snd ij)" by simp
    from findOverlap2nd_bounds [OF s] have b: "fst ij < snd ij" "snd ij < length m" by simp_all
    from findOverlap2nd_Some [OF s] have o: "overlaps (snd (m ! fst ij)) (snd (m ! snd ij))" by simp
    from b have "m ! fst ij \<in> set m" "m ! snd ij \<in> set m" by simp_all
    with "1.prems" have "Q (m ! fst ij)" "Q (m ! snd ij)" by simp_all
    from step [OF this o] mergeAt_subset [OF b] "1.prems"
    have "\<forall>g \<in> set (mergeAt m (fst ij) (snd ij)). Q g" by auto
    from "1.IH" [OF Some this] eq show ?thesis by simp
  qed
qed

lemma mergeLoop_vars: "(\<Union>g \<in> set (mergeLoop m). set (fst g)) = (\<Union>g \<in> set m. set (fst g))"
proof (induction m rule: mergeLoop.induct)
  case (1 m)
  show ?case
  proof (cases "findOverlap2nd m 0")
    case None
    then have "mergeLoop m = m" by (simp add: mergeLoop.simps [of m])
    then show ?thesis by simp
  next
    case (Some ij)
    then have eq: "mergeLoop m = mergeLoop (mergeAt m (fst ij) (snd ij))"
      by (simp add: mergeLoop.simps [of m])
    from Some have s: "findOverlap2nd m 0 = Some (fst ij, snd ij)" by simp
    from findOverlap2nd_bounds [OF s] have b: "fst ij < snd ij" "snd ij < length m" by simp_all
    define i where "i = fst ij"
    define j where "j = snd ij"
    define mg where "mg = (addSet (fst (m ! i)) (fst (m ! j)), addSet (snd (m ! i)) (snd (m ! j)))"
    note b = b [folded i_def j_def]
    have ij_in: "m ! i \<in> set m" "m ! j \<in> set m" using b by simp_all
    have sub: "set (mergeAt m i j) \<subseteq> insert mg (set m)"
      unfolding mg_def using b by (rule mergeAt_subset)
    have mg_in: "mg \<in> set (mergeAt m i j)"
      using set_mergeAt(1) [OF b] by (simp add: mg_def)
    have mgv: "set (fst mg) = set (fst (m ! i)) \<union> set (fst (m ! j))"
      by (simp add: mg_def set_addSet)
    have "(\<Union>g \<in> set (mergeAt m i j). set (fst g)) = (\<Union>g \<in> set m. set (fst g))"
    proof
      show "(\<Union>g \<in> set (mergeAt m i j). set (fst g)) \<subseteq> (\<Union>g \<in> set m. set (fst g))"
      proof
        fix v assume "v \<in> (\<Union>g \<in> set (mergeAt m i j). set (fst g))"
        then obtain g where g: "g \<in> set (mergeAt m i j)" "v \<in> set (fst g)" by blast
        with sub have "g = mg \<or> g \<in> set m" by blast
        then show "v \<in> (\<Union>g \<in> set m. set (fst g))"
        proof
          assume "g = mg"
          with g mgv have "v \<in> set (fst (m ! i)) \<or> v \<in> set (fst (m ! j))" by simp
          with ij_in show ?thesis by blast
        next
          assume "g \<in> set m"
          with g show ?thesis by blast
        qed
      qed
      show "(\<Union>g \<in> set m. set (fst g)) \<subseteq> (\<Union>g \<in> set (mergeAt m i j). set (fst g))"
      proof
        fix v assume "v \<in> (\<Union>g \<in> set m. set (fst g))"
        then obtain g where g: "g \<in> set m" "v \<in> set (fst g)" by blast
        show "v \<in> (\<Union>g \<in> set (mergeAt m i j). set (fst g))"
        proof (cases "g = m ! i \<or> g = m ! j")
          case True
          with g mgv have "v \<in> set (fst mg)" by auto
          with mg_in show ?thesis by blast
        next
          case False
          then have "g \<noteq> m ! i" "g \<noteq> m ! j" by simp_all
          with b g(1) have "g \<in> set (mergeAt m i j)" by (rule mergeAt_keeps)
          with g show ?thesis by blast
        qed
      qed
    qed
    with "1.IH" [OF Some] eq show ?thesis by (simp add: i_def j_def)
  qed
qed

lemma initialMap_vars: "(\<Union>g \<in> set (initialMap dep R V). set (fst g)) = set V"
  by (auto simp: initialMap_def)

lemma connectedD:
  assumes "connected dep R W" "A \<noteq> {}" "A \<subset> W"
  obtains t a b where "t \<in> set R" "a \<in> A" "b \<in> W" "b \<notin> A" "dep t a" "dep t b"
proof -
  from assms have "\<exists>t \<in> set R. \<exists>a \<in> A. \<exists>b \<in> W - A. dep t a \<and> dep t b"
    unfolding connected_def by simp
  then obtain t a b where "t \<in> set R" "a \<in> A" "b \<in> W - A" "dep t a" "dep t b" by fast
  then have "t \<in> set R" "a \<in> A" "b \<in> W" "b \<notin> A" "dep t a" "dep t b" by simp_all
  then show thesis by (rule that)
qed

lemma connectedI:
  assumes "\<And>A. A \<noteq> {} \<Longrightarrow> A \<subset> W \<Longrightarrow> \<exists>t a b. t \<in> set R \<and> a \<in> A \<and> b \<in> W \<and> b \<notin> A \<and> dep t a \<and> dep t b"
  shows "connected dep R W"
  unfolding connected_def
proof (intro allI impI)
  fix A :: "arg set" assume "A \<noteq> {}" "A \<subset> W"
  from assms [OF this] obtain t a b where "t \<in> set R" "a \<in> A" "b \<in> W" "b \<notin> A" "dep t a" "dep t b"
    by fast
  then have "t \<in> set R" "a \<in> A" "b \<in> W - A" "dep t a \<and> dep t b" by simp_all
  then show "\<exists>t \<in> set R. \<exists>a \<in> A. \<exists>b \<in> W - A. dep t a \<and> dep t b" by fast
qed

lemma connected_small:
  assumes c: "card W \<le> 1" and f: "finite W"
  shows "connected dep R W"
proof (rule connectedI)
  fix A assume A: "A \<noteq> {}" "A \<subset> W"
  from f A(2) have "card A < card W" by (rule psubset_card_mono)
  with c have "card A = 0" by simp
  moreover from A(2) have "A \<subseteq> W" by simp
  then have "finite A" using f by (rule finite_subset)
  ultimately have "A = {}" by simp
  with A(1) show "\<exists>t a b. t \<in> set R \<and> a \<in> A \<and> b \<in> W \<and> b \<notin> A \<and> dep t a \<and> dep t b"
    by simp
qed

lemma connected_union:
  assumes ci: "connected dep R Wi" and cj: "connected dep R Wj"
    and t: "t \<in> set R" and a: "a \<in> Wi" "dep t a" and b: "b \<in> Wj" "dep t b"
  shows "connected dep R (Wi \<union> Wj)"
proof (rule connectedI)
  fix A assume ne: "A \<noteq> {}" and sub: "A \<subset> Wi \<union> Wj"
  from sub have subs: "A \<subseteq> Wi \<union> Wj" and neq: "A \<noteq> Wi \<union> Wj" by simp_all
  let ?goal = "\<exists>t a b. t \<in> set R \<and> a \<in> A \<and> b \<in> Wi \<union> Wj \<and> b \<notin> A \<and> dep t a \<and> dep t b"
  have part: ?goal if W: "W = Wi \<or> W = Wj" and c: "connected dep R W"
    and x: "A \<inter> W \<noteq> {}" and y: "\<not> W \<subseteq> A" for W
  proof -
    from y have "A \<inter> W \<noteq> W" by fast
    then have "A \<inter> W \<subset> W" by fast
    from connectedD [OF c x this] obtain t' a' b' where
      "t' \<in> set R" "a' \<in> A \<inter> W" "b' \<in> W" "b' \<notin> A \<inter> W" "dep t' a'" "dep t' b'" .
    with W have "t' \<in> set R \<and> a' \<in> A \<and> b' \<in> Wi \<union> Wj \<and> b' \<notin> A \<and> dep t' a' \<and> dep t' b'"
      by fast
    then show ?thesis by fast
  qed
  show ?goal
  proof (cases "A \<inter> Wi \<noteq> {} \<and> \<not> Wi \<subseteq> A")
    case True
    then show ?thesis using part [of Wi] ci by simp
  next
    case i: False
    show ?thesis
    proof (cases "A \<inter> Wj \<noteq> {} \<and> \<not> Wj \<subseteq> A")
      case True
      then show ?thesis using part [of Wj] cj by simp
    next
      case j: False
      have "a \<in> A \<longleftrightarrow> b \<notin> A"
      proof
        assume "a \<in> A"
        with a(1) i have Wi: "Wi \<subseteq> A" by fast
        show "b \<notin> A"
        proof
          assume "b \<in> A"
          with b(1) j have "Wj \<subseteq> A" by fast
          with Wi subs neq show False by fast
        qed
      next
        assume bn: "b \<notin> A"
        show "a \<in> A"
        proof (rule ccontr)
          assume an: "a \<notin> A"
          from an a(1) i have "A \<inter> Wi = {}" by fast
          moreover from bn b(1) j have "A \<inter> Wj = {}" by fast
          ultimately show False using subs ne by fast
        qed
      qed
      then consider "a \<in> A" "b \<notin> A" | "b \<in> A" "a \<notin> A" by fast
      then show ?thesis
      proof cases
        case 1
        with t a b have "t \<in> set R \<and> a \<in> A \<and> b \<in> Wi \<union> Wj \<and> b \<notin> A \<and> dep t a \<and> dep t b" by simp
        then show ?thesis by fast
      next
        case 2
        with t a b have "t \<in> set R \<and> b \<in> A \<and> a \<in> Wi \<union> Wj \<and> a \<notin> A \<and> dep t b \<and> dep t a" by simp
        then show ?thesis by fast
      qed
    qed
  qed
qed

lemma groupOk_merge:
  assumes gi: "groupOk dep R V gi" and gj: "groupOk dep R V gj"
    and ov: "overlaps (snd gi) (snd gj)"
  shows "groupOk dep R V (addSet (fst gi) (fst gj), addSet (snd gi) (snd gj))"
proof -
  from ov obtain t where t: "t \<in> set (snd gi)" "t \<in> set (snd gj)"
    by (auto simp: overlaps_iff)
  from gi gj t have tR: "t \<in> set R" by (auto simp: groupOk_def)
  have both: "fst gi = [] \<longleftrightarrow> fst gj = []"
  proof
    assume e: "fst gi = []"
    show "fst gj = []"
    proof (rule ccontr)
      assume "fst gj \<noteq> []"
      with gj t obtain v where "v \<in> set (fst gj)" "dep t v" by (auto simp: groupOk_def)
      moreover from gj have "set (fst gj) \<subseteq> set V" by (simp add: groupOk_def)
      moreover from gi e t have "\<not> (\<exists>v \<in> set V. dep t v)" by (auto simp: groupOk_def)
      ultimately show False by blast
    qed
  next
    assume e: "fst gj = []"
    show "fst gi = []"
    proof (rule ccontr)
      assume "fst gi \<noteq> []"
      with gi t obtain v where "v \<in> set (fst gi)" "dep t v" by (auto simp: groupOk_def)
      moreover from gi have "set (fst gi) \<subseteq> set V" by (simp add: groupOk_def)
      moreover from gj e t have "\<not> (\<exists>v \<in> set V. dep t v)" by (auto simp: groupOk_def)
      ultimately show False by blast
    qed
  qed
  have empty: "addSet (fst gi) (fst gj) = [] \<longleftrightarrow> fst gi = []"
  proof -
    have "set (addSet (fst gi) (fst gj)) = set (fst gi) \<union> set (fst gj)" by (rule set_addSet)
    then have "addSet (fst gi) (fst gj) = [] \<longleftrightarrow> set (fst gi) \<union> set (fst gj) = {}"
      by (simp only: set_empty [symmetric])
    with both show ?thesis by auto
  qed
  have 1: "distinct (addSet (fst gi) (fst gj))"
    using gi by (simp add: groupOk_def distinct_addSet)
  have 2: "set (addSet (fst gi) (fst gj)) \<subseteq> set V" "set (addSet (snd gi) (snd gj)) \<subseteq> set R"
    using gi gj by (simp_all add: groupOk_def set_addSet)
  have 3: "if addSet (fst gi) (fst gj) = [] then \<not> (\<exists>v \<in> set V. dep u v)
           else (\<exists>v \<in> set (addSet (fst gi) (fst gj)). dep u v)"
    if u: "u \<in> set (addSet (snd gi) (snd gj))" for u
  proof (cases "fst gi = []")
    case True
    with both have "fst gj = []" by simp
    with True gi gj u have "\<not> (\<exists>v \<in> set V. dep u v)"
      by (auto simp: groupOk_def set_addSet)
    with True empty show ?thesis by simp
  next
    case False
    with both have "fst gj \<noteq> []" by simp
    with False gi gj u have "\<exists>v \<in> set (fst gi) \<union> set (fst gj). dep u v"
      by (auto simp: groupOk_def set_addSet)
    with False empty show ?thesis by (simp add: set_addSet)
  qed
  have 4: "\<forall>v \<in> set (addSet (fst gi) (fst gj)). \<forall>u \<in> set R. dep u v \<longrightarrow>
      u \<in> set (addSet (snd gi) (snd gj))"
    using gi gj by (auto simp: groupOk_def set_addSet)
  have 5: "connected dep R (set (addSet (fst gi) (fst gj)))"
  proof (cases "fst gi = []")
    case True
    with both have "set (addSet (fst gi) (fst gj)) = {}" by (simp add: set_addSet)
    moreover have "connected dep R {}" by (rule connected_small) simp_all
    ultimately show ?thesis by simp
  next
    case False
    with both have nj: "fst gj \<noteq> []" by simp
    from False gi t obtain a where a: "a \<in> set (fst gi)" "dep t a" by (auto simp: groupOk_def)
    from nj gj t obtain b where b: "b \<in> set (fst gj)" "dep t b" by (auto simp: groupOk_def)
    from gi gj have "connected dep R (set (fst gi))" "connected dep R (set (fst gj))"
      by (simp_all add: groupOk_def)
    from connected_union [OF this tR a b] show ?thesis by (simp add: set_addSet)
  qed
  from 1 2 3 4 5 show ?thesis unfolding groupOk_def by simp
qed

lemma groupOk_initialMap:
  assumes "distinct R"
  shows "\<forall>g \<in> set (initialMap dep R V). groupOk dep R V g"
proof
  fix g assume "g \<in> set (initialMap dep R V)"
  then consider "g = ([], indepTerms dep R V)"
    | v where "v \<in> set V" "g = ([v], filter (\<lambda>t. dep t v) R)"
    by (auto simp: initialMap_def split: if_splits)
  then show "groupOk dep R V g"
  proof cases
    case 1
    have "connected dep R {}" by (rule connected_small) simp_all
    with 1 show ?thesis
      by (auto simp: groupOk_def indepTerms_def dependsOnSet_def list_ex_iff)
  next
    case 2
    have "connected dep R {v}" by (rule connected_small) simp_all
    with 2 show ?thesis by (auto simp: groupOk_def)
  qed
qed

lemma groupOk_mergeLoop:
  assumes "distinct R"
  shows "\<forall>g \<in> set (mergeLoop (initialMap dep R V)). groupOk dep R V g"
  using groupOk_initialMap [OF assms] groupOk_merge by (rule mergeLoop_all)


lemma indepTerms_cong: "set V = set V' \<Longrightarrow> indepTerms dep R V = indepTerms dep R V'"
  by (simp add: indepTerms_def dependsOnSet_def list_ex_iff)

lemma mergeLoop_short: "length m < 2 \<Longrightarrow> mergeLoop m = m"
proof -
  assume l: "length m < 2"
  have "findOverlap2nd m 0 = None"
  proof (cases "findOverlap2nd m 0")
    case None
    then show ?thesis .
  next
    case (Some ij)
    then have "findOverlap2nd m 0 = Some (fst ij, snd ij)" by simp
    from findOverlap2nd_bounds [OF this] l show ?thesis by simp
  qed
  then show ?thesis by (simp add: mergeLoop.simps [of m])
qed

text \<open>
  Whether the grouper finds fewer than two groups does not depend on the order of the
  variables of the request.
\<close>

lemma few_groups_perm:
  fixes dep :: "arg \<Rightarrow> arg \<Rightarrow> bool"
  assumes R: "distinct R" and V': "distinct V'" and VV: "set V = set V'"
    and few: "length (mergeLoop (initialMap dep R V)) < 2"
  shows "length (mergeLoop (initialMap dep R V')) < 2"
proof (cases "V = []")
  case True
  with VV have "V' = []" by simp
  with True few show ?thesis by simp
next
  case False
  define m where "m = mergeLoop (initialMap dep R V)"
  define m' where "m' = mergeLoop (initialMap dep R V')"
  have vars: "(\<Union>g \<in> set m. set (fst g)) = set V"
    unfolding m_def by (simp add: mergeLoop_vars initialMap_vars)
  have vars': "(\<Union>g \<in> set m'. set (fst g)) = set V'"
    unfolding m'_def by (simp add: mergeLoop_vars initialMap_vars)
  from False vars have "m \<noteq> []" by auto
  with few obtain g where m: "m = [g]" unfolding m_def [symmetric]
    by (cases m) (simp_all add: length_Suc_conv)
  with vars have g: "set (fst g) = set V" by simp
  from groupOk_mergeLoop [OF R, of dep V] m have "groupOk dep R V g"
    by (simp add: m_def [symmetric])
  then have conn: "connected dep R (set V)" by (simp add: groupOk_def g)
  have indep: "indepTerms dep R V = []"
  proof (rule ccontr)
    assume ne: "indepTerms dep R V \<noteq> []"
    from indepFirst_mergeLoop [OF indepFirst_initialMap [OF ne]]
    obtain rest where "m = ([], indepTerms dep R V) # rest"
      unfolding m_def [symmetric] indepFirst_def by blast
    with m have "fst g = []" by auto
    with g False show False by simp
  qed
  with VV have indep': "indepTerms dep R V' = []" by (simp add: indepTerms_cong [of V' V])
  have ok': "\<forall>g \<in> set m'. groupOk dep R V' g"
    unfolding m'_def using R by (rule groupOk_mergeLoop)
  have no': "noOverlap m'" unfolding m'_def by (rule mergeLoop_noOverlap)
  have "mset (concat (map fst m')) = mset V'"
    unfolding m'_def using R V' by (rule mergeLoop_facts(1))
  then have "distinct (concat (map fst m')) = distinct V'" by (rule mset_eq_imp_distinct_iff)
  with V' have dc: "distinct (concat (map fst m'))" by simp
  have "\<forall>g \<in> set (initialMap dep R V'). fst g \<noteq> []"
    using indep' by (auto simp: initialMap_def)
  then have "\<forall>g \<in> set (mergeLoop (initialMap dep R V')). fst g \<noteq> []"
  proof (rule mergeLoop_all)
    fix gi gj :: "RooArgSet \<times> RooArgSet"
    assume "fst gi \<noteq> []"
    then have "set (addSet (fst gi) (fst gj)) \<noteq> {}" by (simp add: set_addSet)
    then have "addSet (fst gi) (fst gj) \<noteq> []" by auto
    then show "fst (addSet (fst gi) (fst gj), addSet (snd gi) (snd gj)) \<noteq> []" by simp
  qed
  then have nonempty': "\<forall>g \<in> set m'. fst g \<noteq> []" by (simp add: m'_def)
  show ?thesis
  proof (rule ccontr)
    assume "\<not> length (mergeLoop (initialMap dep R V')) < 2"
    then have len: "2 \<le> length m'" by (simp add: m'_def)
    then have l0: "0 < length m'" and l1: "1 < length m'" by linarith+
    from l0 have in0: "m' ! 0 \<in> set m'" by (rule nth_mem)
    from l1 have in1: "m' ! 1 \<in> set m'" by (rule nth_mem)
    define A where "A = set (fst (m' ! 0))"
    from nonempty' in0 have Ane: "A \<noteq> {}" by (simp add: A_def)
    from nonempty' in1 obtain b where b: "b \<in> set (fst (m' ! 1))"
      by (cases "fst (m' ! 1)") auto
    have "set (map fst m' ! 0) \<inter> set (map fst m' ! 1) = {}"
      using dc by (rule distinct_concat_nth_disjoint) (use l1 in simp_all)
    with l0 l1 have dis: "A \<inter> set (fst (m' ! 1)) = {}" by (simp add: A_def)
    from in0 vars' have "A \<subseteq> set V'" unfolding A_def by blast
    moreover from in1 vars' b have "b \<in> set V'" by blast
    moreover from b dis have "b \<notin> A" by blast
    ultimately have "A \<subset> set V" using VV by blast
    from connectedD [OF conn Ane this] obtain t a c where
      t: "t \<in> set R" and a: "a \<in> A" and c: "c \<in> set V" "c \<notin> A" and d: "dep t a" "dep t c" .
    from c(1) VV vars' obtain h where h: "h \<in> set m'" "c \<in> set (fst h)" by blast
    then obtain j where j: "j < length m'" "h = m' ! j" by (auto simp: in_set_conv_nth)
    have j0: "0 < j"
    proof (rule ccontr)
      assume "\<not> 0 < j"
      then have "j = 0" by simp
      with h(2) j(2) have "c \<in> A" by (simp add: A_def)
      with c(2) show False ..
    qed
    from ok' in0 a d(1) t have "t \<in> set (snd (m' ! 0))"
      by (auto simp: groupOk_def A_def)
    moreover from ok' h d(2) t j have "t \<in> set (snd (m' ! j))"
      by (auto simp: groupOk_def)
    ultimately have "overlaps (snd (m' ! 0)) (snd (m' ! j))"
      by (auto simp: overlaps_iff)
    with no' j0 j(1) show False by (simp add: noOverlap_def)
  qed
qed

lemma groupProductTerms_few_perm:
  assumes R: "distinct (compRSet P)" and K: "distinct K" and s: "set iset = set K"
    and m: "groupProductTerms dep P iset = Inr m" "length m < 2"
  shows "groupProductTerms dep P K \<noteq> Inr m' \<or> length m' < 2"
proof -
  from m(1) have "m = mergeLoop (initialMap dep (compRSet P) iset)"
    unfolding groupProductTerms_unfold [OF R] by (simp add: Let_def split: if_splits)
  with m(2) have "length (mergeLoop (initialMap dep (compRSet P) iset)) < 2" by simp
  with R K s have "length (mergeLoop (initialMap dep (compRSet P) K)) < 2"
    by (rule few_groups_perm)
  then show ?thesis unfolding groupProductTerms_eq [OF R K] by auto
qed

lemma getPartIntList_term_empty: "snd i = [] \<Longrightarrow> getPartIntList_term i cache = Inl AssertionFailed"
  by (simp add: getPartIntList_term_def getSize_def)

lemma getPartIntList_term_nonempty:
  "snd i \<noteq> [] \<Longrightarrow> \<exists>tc. getPartIntList_term i cache = Inr tc"
  by (cases "snd i"; cases "tl (snd i)")
     (auto simp: getPartIntList_term_def getSize_def Let_def split: list.splits)

lemma getPartIntList_step_empty:
  "snd i = [] \<Longrightarrow> getPartIntList_step createIntegral isetRange i cache = Inl AssertionFailed"
  by (simp add: getPartIntList_step_def getPartIntList_term_empty)

lemma getPartIntList_step_nonempty:
  assumes "snd i \<noteq> []"
  shows "getPartIntList_step createIntegral isetRange i cache \<noteq> Inl AssertionFailed"
proof -
  from getPartIntList_term_nonempty [OF assms]
  obtain tc where "getPartIntList_term i cache = Inr tc" by blast
  then show ?thesis
    by (auto simp: getPartIntList_step_def split: option.splits)
qed

lemma getPartIntList_step_error:
  assumes "\<forall>t vars. createIntegral t vars isetRange \<noteq> None"
    and "getPartIntList_step createIntegral isetRange i cache = Inl e"
  shows "e = AssertionFailed"
proof (cases "getPartIntList_term i cache")
  case (Inl e')
  then have "e' = AssertionFailed"
    by (auto simp: getPartIntList_term_def Let_def split: if_splits list.splits)
  with Inl assms(2) show ?thesis by (simp add: getPartIntList_step_def)
next
  case (Inr tc)
  from assms(1) have "createIntegral (fst tc) (fst i) isetRange \<noteq> None" by blast
  with Inr assms(2) show ?thesis
    by (auto simp: getPartIntList_step_def split: if_splits option.splits)
qed

lemma getPartIntList_loop_nonempty:
  "\<forall>g \<in> set m. snd g \<noteq> [] \<Longrightarrow>
   getPartIntList_loop createIntegral isetRange m cache \<noteq> Inl AssertionFailed"
proof (induction m arbitrary: cache)
  case Nil
  then show ?case by simp
next
  case (Cons i rest)
  then have "snd i \<noteq> []" by simp
  from getPartIntList_step_nonempty [OF this]
  have s: "getPartIntList_step createIntegral isetRange i cache \<noteq> Inl AssertionFailed" .
  show ?case
  proof (cases "getPartIntList_step createIntegral isetRange i cache")
    case (Inl e)
    with s show ?thesis by simp
  next
    case (Inr cache')
    have "getPartIntList_loop createIntegral isetRange rest cache' \<noteq> Inl AssertionFailed"
      using Cons.prems by (intro Cons.IH) simp
    with Inr show ?thesis by simp
  qed
qed

lemma getPartIntList_loop_empty:
  "g \<in> set m \<Longrightarrow> snd g = [] \<Longrightarrow>
   \<exists>e. getPartIntList_loop createIntegral isetRange m cache = Inl e"
proof (induction m arbitrary: cache)
  case Nil
  then show ?case by simp
next
  case (Cons i rest)
  show ?case
  proof (cases "getPartIntList_step createIntegral isetRange i cache")
    case (Inl e)
    then show ?thesis by simp
  next
    case (Inr cache')
    then have "snd i \<noteq> []" using getPartIntList_step_empty [of i createIntegral isetRange cache] by auto
    with Cons.prems have "g \<in> set rest" by auto
    from Cons.IH [OF this Cons.prems(2)] Inr show ?thesis by simp
  qed
qed

lemma getPartIntList_loop_error:
  "\<forall>t vars. createIntegral t vars isetRange \<noteq> None \<Longrightarrow>
   getPartIntList_loop createIntegral isetRange m cache = Inl e \<Longrightarrow> e = AssertionFailed"
proof (induction m arbitrary: cache)
  case Nil
  then show ?case by simp
next
  case (Cons i rest)
  show ?case
  proof (cases "getPartIntList_step createIntegral isetRange i cache")
    case (Inl e')
    with Cons.prems(2) have "e' = e" by simp
    with getPartIntList_step_error [OF Cons.prems(1) Inl] show ?thesis by simp
  next
    case (Inr cache')
    with Cons.prems(2) have "getPartIntList_loop createIntegral isetRange rest cache' = Inl e" by simp
    from Cons.IH [OF Cons.prems(1) this] show ?thesis .
  qed
qed

lemma initialMap_unused:
  "v \<in> set V \<Longrightarrow> \<not> list_ex (\<lambda>t. dep t v) R \<Longrightarrow> ([v], []) \<in> set (initialMap dep R V)"
proof -
  assume v: "v \<in> set V" and n: "\<not> list_ex (\<lambda>t. dep t v) R"
  from n have "filter (\<lambda>t. dep t v) R = []" by (auto simp: list_ex_iff filter_empty_conv)
  with v have "([v], []) \<in> (\<lambda>v. ([v], filter (\<lambda>t. dep t v) R)) ` set V" by force
  then show ?thesis by (simp add: initialMap_def)
qed

lemma initialMap_all_used:
  assumes "\<forall>v \<in> set V. list_ex (\<lambda>t. dep t v) R"
  shows "\<forall>g \<in> set (initialMap dep R V). snd g \<noteq> []"
proof
  fix g assume "g \<in> set (initialMap dep R V)"
  then consider "g = ([], indepTerms dep R V)" "indepTerms dep R V \<noteq> []"
    | v where "v \<in> set V" "g = ([v], filter (\<lambda>t. dep t v) R)"
    by (auto simp: initialMap_def split: if_splits)
  then show "snd g \<noteq> []"
  proof cases
    case 1
    then show ?thesis by simp
  next
    case 2
    with assms have "list_ex (\<lambda>t. dep t v) R" by simp
    then have "filter (\<lambda>t. dep t v) R \<noteq> []" by (auto simp: list_ex_iff filter_empty_conv)
    with 2 show ?thesis by simp
  qed
qed

subsection \<open>The integral cache\<close>

lemma findKey_None_iff:
  "findKey mgr ns is tok k = None \<longleftrightarrow>
     (\<forall>s \<in> set mgr. slotKey s \<noteq> (normalized ns, normalized is, tok))"
  by (induction mgr arbitrary: k) (auto simp: slotKey_def)

lemma findKey_Some_key:
  "findKey mgr ns is tok k = Some c \<Longrightarrow>
   slotKey (mgr ! (c - k)) = (normalized ns, normalized is, tok)"
proof (induction mgr arbitrary: k)
  case Nil
  then show ?case by simp
next
  case (Cons s ss)
  show ?case
  proof (cases "normalized (key_nset s) = normalized ns \<and>
      normalized (key_iset s) = normalized is \<and> key_range s = tok")
    case True
    with Cons.prems show ?thesis by (simp add: slotKey_def)
  next
    case False
    with Cons.prems have r: "findKey ss ns is tok (Suc k) = Some c" by auto
    from findKey_bounds [OF r] have "c - k = Suc (c - Suc k)" by arith
    with Cons.IH [OF r] show ?thesis by simp
  qed
qed


lemma findKey_keys:
  "map slotKey mgr = map slotKey mgr' \<Longrightarrow> findKey mgr ns is tok k = findKey mgr' ns is tok k"
proof (induction mgr arbitrary: mgr' k)
  case Nil
  then show ?case by simp
next
  case (Cons s ss)
  then obtain s' ss' where m: "mgr' = s' # ss'" and s: "slotKey s = slotKey s'"
    and ss: "map slotKey ss = map slotKey ss'" by (cases mgr') auto
  from Cons.IH [OF ss] s show ?case unfolding m by (simp add: slotKey_def)
qed

lemma slotKey_sterilize: "map slotKey (sterilize mgr) = map slotKey mgr"
  by (simp add: sterilize_def slotKey_def)

lemma slotKey_update_same:
  assumes "slotKey s = slotKey (mgr ! k)"
  shows "map slotKey (mgr[k := s]) = map slotKey mgr"
proof -
  from assms have "map slotKey (mgr[k := s]) = (map slotKey mgr)[k := slotKey (mgr ! k)]"
    by (simp add: map_update)
  also have "\<dots> = map slotKey mgr"
    by (cases "k < length mgr") (simp_all add: list_update_same_conv list_update_beyond)
  finally show ?thesis .
qed

lemma slotKey_found:
  assumes "findKey mgr ns is tok 0 = Some k"
  shows "slotKey \<lparr>key_nset = ns, key_iset = is, key_range = tok, obj = x\<rparr> = slotKey (mgr ! k)"
  using findKey_Some_key [OF assms] by (simp add: slotKey_def)

lemma groupProductTerms_cacheMgr [simp]:
  "groupProductTerms dep (P\<lparr>cacheMgr := mgr\<rparr>) V = groupProductTerms dep P V"
proof -
  have c: "compRSet (P\<lparr>cacheMgr := mgr\<rparr>) = compRSet P" by simp
  show ?thesis unfolding groupProductTerms_def c ..
qed

lemma slotInv_cacheMgr [simp]:
  "slotInv dep createIntegral (P\<lparr>cacheMgr := mgr\<rparr>) s = slotInv dep createIntegral P s"
  unfolding slotInv_def groupProductTerms_cacheMgr ..

lemma getObj_setObj:
  "getObj (snd (setObj mgr ns is e tok)) ns is tok = Some (fst (setObj mgr ns is e tok), e)"
proof (cases "findKey mgr ns is tok 0")
  case None
  then have no: "\<forall>s \<in> set mgr. slotKey s \<noteq> (normalized ns, normalized is, tok)"
    by (simp add: findKey_None_iff)
  let ?new = "\<lparr>key_nset = ns, key_iset = is, key_range = tok, obj = Some e\<rparr>"
  have "findKey (mgr @ [?new]) ns is tok k = Some (k + length mgr)" for k
    using no by (induction mgr arbitrary: k) (auto simp: slotKey_def)
  from this [of 0] None show ?thesis by (simp add: setObj_def getObj_def)
next
  case (Some k)
  from findKey_bounds [OF Some] have k: "k < length mgr" by simp
  let ?new = "\<lparr>key_nset = ns, key_iset = is, key_range = tok, obj = Some e\<rparr>"
  have "findKey (mgr[k := ?new]) ns is tok 0 = findKey mgr ns is tok 0"
    by (rule findKey_keys) (rule slotKey_update_same, rule slotKey_found, rule Some)
  with Some k show ?thesis by (simp add: setObj_def getObj_def)
qed

lemma cacheInv_setObj:
  assumes inv: "cacheInv dep createIntegral P"
    and iset: "distinct iset"
    and m: "groupProductTerms dep P iset = Inr m" "2 \<le> length m"
    and e: "getPartIntList_loop createIntegral tok m \<lparr>prodList = [], ownedList = []\<rparr> = Inr e"
  shows "cacheInv dep createIntegral (P\<lparr>cacheMgr := snd (setObj (cacheMgr P) iset iset e tok)\<rparr>)"
proof -
  let ?mgr = "cacheMgr P"
  from inv have R: "distinct (compRSet P)" and keys: "distinct (map slotKey ?mgr)"
    and slots: "\<forall>s \<in> set ?mgr. slotInv dep createIntegral P s"
    by (simp_all add: cacheInv_def)
  let ?new = "\<lparr>key_nset = iset, key_iset = iset, key_range = tok, obj = Some e\<rparr>"
  have new: "slotInv dep createIntegral P ?new"
    using iset m e by (auto simp: slotInv_def)
  show ?thesis
  proof (cases "findKey ?mgr iset iset tok 0")
    case None
    have s: "snd (setObj ?mgr iset iset e tok) = ?mgr @ [?new]"
      using None by (simp add: setObj_def)
    from None have "(normalized iset, normalized iset, tok) \<notin> set (map slotKey ?mgr)"
      by (auto simp: findKey_None_iff)
    then have "distinct (map slotKey (?mgr @ [?new]))"
      using keys by (simp add: slotKey_def)
    then show ?thesis using new R slots unfolding s by (simp add: cacheInv_def)
  next
    case (Some k)
    from findKey_bounds [OF Some] have k: "k < length ?mgr" by simp
    have s: "snd (setObj ?mgr iset iset e tok) = ?mgr[k := ?new]"
      using Some by (simp add: setObj_def)
    have "map slotKey (?mgr[k := ?new]) = map slotKey ?mgr"
      by (rule slotKey_update_same, rule slotKey_found, rule Some)
    with keys have "distinct (map slotKey (?mgr[k := ?new]))" by simp
    moreover from new have "\<forall>s \<in> set (?mgr[k := ?new]). slotInv dep createIntegral P s"
      using slots set_update_subset_insert [of ?mgr k ?new] by auto
    ultimately show ?thesis using R unfolding s by (simp add: cacheInv_def)
  qed
qed

lemma cacheInv_getPartIntList:
  assumes inv: "cacheInv dep createIntegral P" and iset: "distinct iset"
    and r: "getPartIntList dep createIntegral P iset isetRange = Inr (code, P')"
  shows "cacheInv dep createIntegral P'"
proof (cases "getObj (cacheMgr P) iset iset (RooNameReg_ptr isetRange)")
  case (Some ce)
  with r have "P' = P" by (simp add: getPartIntList_def)
  with inv show ?thesis by simp
next
  case None
  with r obtain m where m: "groupProductTerms dep P iset = Inr m"
    by (auto simp: getPartIntList_def split: sum.splits)
  show ?thesis
  proof (cases "length m < 2")
    case True
    with None m r have "P' = P" by (simp add: getPartIntList_def)
    with inv show ?thesis by simp
  next
    case False
    with None m r obtain e where
      e: "getPartIntList_loop createIntegral isetRange m \<lparr>prodList = [], ownedList = []\<rparr> = Inr e"
      and P': "P' = P\<lparr>cacheMgr := snd (setObj (cacheMgr P) iset iset e (RooNameReg_ptr isetRange))\<rparr>"
      by (auto simp: getPartIntList_def Let_def split: sum.splits)
    from False have two: "2 \<le> length m" by simp
    from inv iset m two e show ?thesis
      unfolding P' RooNameReg_ptr_def by (rule cacheInv_setObj)
  qed
qed

lemma cacheInv_sterilize:
  assumes "cacheInv dep createIntegral P"
  shows "cacheInv dep createIntegral (P\<lparr>cacheMgr := sterilize (cacheMgr P)\<rparr>)"
proof -
  have "slotInv dep createIntegral P (s\<lparr>obj := None\<rparr>)" if "slotInv dep createIntegral P s" for s
  proof -
    from that obtain m e where "key_nset s = key_iset s" "distinct (key_iset s)"
      "groupProductTerms dep P (key_iset s) = Inr m" "2 \<le> length m"
      "getPartIntList_loop createIntegral (key_range s) m \<lparr>prodList = [], ownedList = []\<rparr> = Inr e"
      unfolding slotInv_def by blast
    then show ?thesis unfolding slotInv_def by simp
  qed
  moreover from assms have "\<forall>s \<in> set (cacheMgr P). slotInv dep createIntegral P s"
    by (simp add: cacheInv_def)
  ultimately have "\<forall>s \<in> set (sterilize (cacheMgr P)). slotInv dep createIntegral P s"
    by (auto simp: sterilize_def)
  moreover from assms have "distinct (compRSet P)" "distinct (map slotKey (cacheMgr P))"
    by (simp_all add: cacheInv_def)
  ultimately show ?thesis
    by (simp add: cacheInv_def slotKey_sterilize)
qed

lemma reachable_cacheInv: "reachable dep createIntegral P \<Longrightarrow> cacheInv dep createIntegral P"
proof (induction rule: reachable.induct)
  case (fresh P)
  then show ?case by (simp add: cacheInv_def)
next
  case (request P iset isetRange code P')
  from request.IH request.hyps(2,3) show ?case by (rule cacheInv_getPartIntList)
next
  case (sterilized P)
  from sterilized.IH show ?case by (rule cacheInv_sterilize)
qed

lemma getObj_Some_key:
  assumes "getObj mgr ns is tok = Some ce"
  shows "\<exists>k. fst ce = int k \<and> k < length mgr \<and>
             slotKey (mgr ! k) = (normalized ns, normalized is, tok) \<and>
             obj (mgr ! k) = Some (snd ce)"
proof -
  from assms obtain k where k: "findKey mgr ns is tok 0 = Some k"
    by (auto simp: getObj_def split: option.splits)
  from findKey_bounds [OF k] have "k < length mgr" by simp
  moreover from findKey_Some_key [OF k]
  have "slotKey (mgr ! k) = (normalized ns, normalized is, tok)" by simp
  moreover from assms k have "fst ce = int k" "obj (mgr ! k) = Some (snd ce)"
    by (auto simp: getObj_def split: option.splits)
  ultimately show ?thesis by blast
qed

lemma cacheInv_slot:
  "cacheInv dep createIntegral P \<Longrightarrow> k < length (cacheMgr P) \<Longrightarrow>
   slotInv dep createIntegral P (cacheMgr P ! k)"
  by (simp add: cacheInv_def)

lemma getObj_hit:
  "getObj (cacheMgr P) iset iset (RooNameReg_ptr isetRange) = Some ce \<Longrightarrow>
   getPartIntList dep createIntegral P iset isetRange = Inr (fst ce, P)"
  by (simp add: getPartIntList_def)

lemma getPartIntList_stored:
  assumes "getPartIntList dep createIntegral P iset isetRange = Inr (code, P')" and "0 \<le> code"
  shows "\<exists>e. getObj (cacheMgr P') iset iset (RooNameReg_ptr isetRange) = Some (code, e)"
proof (cases "getObj (cacheMgr P) iset iset (RooNameReg_ptr isetRange)")
  case (Some ce)
  with assms(1) have "P' = P" "code = fst ce" by (simp_all add: getPartIntList_def)
  with Some show ?thesis by (cases ce) auto
next
  case None
  with assms(1) obtain m where m: "groupProductTerms dep P iset = Inr m"
    by (auto simp: getPartIntList_def split: sum.splits)
  show ?thesis
  proof (cases "length m < 2")
    case True
    with None m assms show ?thesis by (simp add: getPartIntList_def)
  next
    case False
    with None m assms(1) obtain e where
      "code = fst (setObj (cacheMgr P) iset iset e (RooNameReg_ptr isetRange))"
      "P' = P\<lparr>cacheMgr := snd (setObj (cacheMgr P) iset iset e (RooNameReg_ptr isetRange))\<rparr>"
      by (auto simp: getPartIntList_def Let_def split: sum.splits)
    then show ?thesis by (simp add: getObj_setObj)
  qed
qed

lemma findKey_normalized:
  "normalized ns' = normalized ns \<Longrightarrow> normalized is' = normalized is \<Longrightarrow>
   findKey mgr ns' is' tok k = findKey mgr ns is tok k"
  by (induction mgr arbitrary: k) simp_all

lemma getObj_normalized:
  "normalized ns' = normalized ns \<Longrightarrow> normalized is' = normalized is \<Longrightarrow>
   getObj mgr ns' is' tok = getObj mgr ns is tok"
  by (simp add: getObj_def findKey_normalized [of ns' ns is' "is"])

lemma findKey_append:
  "findKey mgr ns is tok k = Some c \<Longrightarrow> findKey (mgr @ [s]) ns is tok k = Some c"
  by (induction mgr arbitrary: k) (auto split: if_splits)

lemma getObj_setObj_other:
  assumes hit: "getObj mgr ns is tok = Some ce"
    and miss: "getObj mgr ns' is' tok' = None"
  shows "getObj (snd (setObj mgr ns' is' e tok')) ns is tok = Some ce"
proof -
  from getObj_Some_key [OF hit] obtain k where k: "k < length mgr"
    and key: "slotKey (mgr ! k) = (normalized ns, normalized is, tok)"
    and ob: "obj (mgr ! k) = Some (snd ce)"
    and fk: "fst ce = int k" by blast
  from hit have f: "findKey mgr ns is tok 0 = Some k"
    using fk by (auto simp: getObj_def split: option.splits)
  show ?thesis
  proof (cases "findKey mgr ns' is' tok' 0")
    case None
    have "findKey (mgr @ [\<lparr>key_nset = ns', key_iset = is', key_range = tok', obj = Some e\<rparr>]) ns is tok 0 = Some k"
      using f by (rule findKey_append)
    with None k ob hit f show ?thesis
      by (simp add: setObj_def getObj_def nth_append)
  next
    case (Some k')
    from findKey_bounds [OF Some] have k': "k' < length mgr" by simp
    from miss Some have "obj (mgr ! k') = None"
      by (auto simp: getObj_def split: option.splits)
    with ob have ne: "k' \<noteq> k" by auto
    have "findKey (mgr[k' := \<lparr>key_nset = ns', key_iset = is', key_range = tok', obj = Some e\<rparr>])
        ns is tok 0 = findKey mgr ns is tok 0"
      by (rule findKey_keys) (rule slotKey_update_same, rule slotKey_found, rule Some)
    with Some f ne hit show ?thesis
      by (simp add: setObj_def getObj_def)
  qed
qed

lemma getPartIntList_keeps_hit:
  assumes hit: "getObj (cacheMgr P) ns is tok = Some ce"
    and r: "getPartIntList dep createIntegral P iset isetRange = Inr (code, P')"
  shows "getObj (cacheMgr P') ns is tok = Some ce"
proof (cases "getObj (cacheMgr P) iset iset (RooNameReg_ptr isetRange)")
  case (Some ce')
  with r have "P' = P" by (simp add: getPartIntList_def)
  with hit show ?thesis by simp
next
  case None
  with r obtain m where m: "groupProductTerms dep P iset = Inr m"
    by (auto simp: getPartIntList_def split: sum.splits)
  show ?thesis
  proof (cases "length m < 2")
    case True
    with None m r have "P' = P" by (simp add: getPartIntList_def)
    with hit show ?thesis by simp
  next
    case False
    with None m r obtain e where
      "P' = P\<lparr>cacheMgr := snd (setObj (cacheMgr P) iset iset e (RooNameReg_ptr isetRange))\<rparr>"
      by (auto simp: getPartIntList_def Let_def split: sum.splits)
    with getObj_setObj_other [OF hit None] show ?thesis by simp
  qed
qed

lemma requests_keep_hit:
  "requests dep createIntegral P P' \<Longrightarrow> getObj (cacheMgr P) ns is tok = Some ce \<Longrightarrow>
   getObj (cacheMgr P') ns is tok = Some ce"
proof (induction rule: requests.induct)
  case (none P)
  then show ?case .
next
  case (more P P' iset isetRange code P'')
  from more.IH [OF more.prems] more.hyps(2) show ?case by (rule getPartIntList_keeps_hit)
qed










subsection \<open>The evaluator and the names of sub-products\<close>

lemma foldl_times:
  "foldl (\<lambda>prod x. prod * f x) a xs = a * prod_list (map f xs)" for a :: real
  by (induction xs arbitrary: a) (simp_all add: mult.assoc)

lemma evaluate_eq:
  "evaluate getVal getIndex P =
     prod_list (map (\<lambda>rcomp. getVal rcomp (nset P)) (compRSet P)) *
     prod_list (map (\<lambda>ccomp. of_int (getIndex ccomp)) (compCSet P))"
  by (simp add: evaluate_def foldl_times)

lemma makeFPName_loop_eq:
  "makeFPName_loop pname False terms = pname @ concat (map (\<lambda>a. ''_X_'' @ a) terms)"
  by (induction terms arbitrary: pname) simp_all

lemma makeFPName_eq:
  "makeFPName pfx (t # ts) = pfx @ t @ concat (map (\<lambda>a. ''_X_'' @ a) ts)"
  by (simp add: makeFPName_def makeFPName_loop_eq)

subsection \<open>The example products\<close>

lemmas exGroup = groupProductTerms_def exProduct_def exDep_def dependsOnSet_def add_def
  addSet_def getSize_def mergeLoop.simps overlaps_def mergeAt_def erase_def

lemmas exBuild = getPartIntList_def getPartIntList_step_def getPartIntList_term_def
  makeFPName_def exCreateIntegral_def getObj_def setObj_def RooNameReg_ptr_def Let_def
  getSize_def normalized_def

lemmas exStates = exP1_def exP2_def exSlotX_def exSlotY_def exEntryX_def exEntryY_def

lemma ex_group_x:
  "groupProductTerms exDep (exProduct [''f'', ''g'']) [''x''] = Inr [([], [''g'']), ([''x''], [''f''])]"
  by (simp add: exGroup)


lemma ex_group_y_P1:
  "groupProductTerms exDep exP1 [''y''] = Inr [([], [''f'']), ([''y''], [''g''])]"
  by (simp add: exGroup exStates)

lemma ex_group_none_P1:
  "groupProductTerms exDep exP1 [] = Inr [([], [''f'', ''g''])]"
  by (simp add: exGroup exStates)

lemma ex_group_single:
  "groupProductTerms exDep (exProduct [''f'']) [''x''] = Inr [([''x''], [''f''])]"
  by (simp add: exGroup)

lemma ex_group_unused:
  "groupProductTerms exDep (exProduct [''f'', ''g'']) [''x'', ''z''] =
     Inr [([], [''g'']), ([''x''], [''f'']), ([''z''], [])]"
  by (simp add: exGroup)

lemma ex_request_x:
  "getPartIntList exDep exCreateIntegral (exProduct [''f'', ''g'']) [''x''] None = Inr (0, exP1)"
  unfolding getPartIntList_def ex_group_x
  by (simp add: exBuild exStates exProduct_def)

lemma ex_request_y:
  "getPartIntList exDep exCreateIntegral exP1 [''y''] None = Inr (1, exP2)"
  unfolding getPartIntList_def ex_group_y_P1
  by (simp add: exBuild exStates exProduct_def)

lemma ex_reachable_P1: "reachable exDep exCreateIntegral exP1"
proof (rule reachable.request)
  show "reachable exDep exCreateIntegral (exProduct [''f'', ''g''])"
    by (rule reachable.fresh) (simp_all add: exProduct_def)
  show "distinct [''x'']" by simp
  show "getPartIntList exDep exCreateIntegral (exProduct [''f'', ''g'']) [''x''] None = Inr (0, exP1)"
    by (rule ex_request_x)
qed

lemma ex_requests_P2: "requests exDep exCreateIntegral exP1 exP2"
  using requests.none ex_request_y by (rule requests.more)

lemma ex_group_xy:
  "groupProductTerms exDep (exProduct [''f'', ''g'']) [''x'', ''y''] =
     Inr [([''x''], [''f'']), ([''y''], [''g''])]"
  by (simp add: exGroup)

lemma ex_group_x_Q1:
  "groupProductTerms exDep exQ1 [''x''] = Inr [([], [''g'']), ([''x''], [''f''])]"
  by (simp add: exGroup exQ1_def)

lemma ex_request_xy:
  "getPartIntList exDep exCreateIntegral (exProduct [''f'', ''g'']) [''x'', ''y''] None =
     Inr (0, exQ1)"
  unfolding getPartIntList_def ex_group_xy
  by (simp add: exBuild exQ1_def exSlotXY_def exEntryXY_def exProduct_def)

lemma ex_request_x_Q1:
  "getPartIntList exDep exCreateIntegral exQ1 [''x''] None = Inr (1, exQ2)"
  unfolding getPartIntList_def ex_group_x_Q1
  by (simp add: exBuild exStates exQ1_def exQ2_def exSlotXY_def exEntryXY_def exProduct_def)

lemma ex_requests_Q2: "requests exDep exCreateIntegral exQ1 exQ2"
  using requests.none ex_request_x_Q1 by (rule requests.more)

lemma exCreateIntegral_total: "\<forall>t vars. exCreateIntegral t vars None \<noteq> None"
  by (simp add: exCreateIntegral_def split: absReal.splits)

lemma groupProductTerms_indep_first:
  assumes "distinct (compRSet P)" and "distinct allVars"
    and "filter (\<lambda>t. \<not> dependsOnSet dep t allVars) (compRSet P) \<noteq> []"
  shows "\<exists>rest. groupProductTerms dep P allVars =
            Inr (([], filter (\<lambda>t. \<not> dependsOnSet dep t allVars) (compRSet P)) # rest) \<and>
          (\<forall>g \<in> set rest. fst g \<noteq> [])"
proof -
  have ne: "indepTerms dep (compRSet P) allVars \<noteq> []"
    using assms(3) by (simp add: indepTerms_def)
  have "indepFirst (indepTerms dep (compRSet P) allVars)
          (mergeLoop (initialMap dep (compRSet P) allVars))"
    using indepFirst_initialMap [OF ne] by (rule indepFirst_mergeLoop)
  then show ?thesis
    unfolding groupProductTerms_eq [OF assms(1,2)] indepFirst_def indepTerms_def by auto
qed

lemma ex_calculate:
  "calculate getVal getIndex integVal [Comp ''g'', Integ (''f'', [''x''])] =
     getVal ''g'' None * integVal (''f'', [''x''])"
  by (simp add: calculate_def absReal_getVal_def)

lemma ex_analyticalIntegral:
  "analyticalIntegral exDep exCreateIntegral getVal getIndex integVal exP1 1 None =
     Inr (getVal ''g'' None * integVal (''f'', [''x'']), exP1)"
proof -
  have "getObjByIndex (cacheMgr exP1) (1 - 1) = Some exEntryX"
    by (simp add: getObjByIndex_def exP1_def exSlotX_def)
  then have "analyticalIntegral exDep exCreateIntegral getVal getIndex integVal exP1 1 None =
      Inr (calculate getVal getIndex integVal (prodList exEntryX), exP1)"
    by (simp add: analyticalIntegral.simps [of _ _ _ _ _ exP1])
  then show ?thesis by (simp add: exEntryX_def ex_calculate)
qed

subsection \<open>Evaluation in a reachable state\<close>

lemma cacheInv_names_distinct:
  assumes "cacheInv dep createIntegral P"
    and "nameSet2ByIndex (cacheMgr P) index = Some names"
  shows "distinct names"
proof -
  from assms(2) have i: "nat index < length (cacheMgr P)"
    and n: "names = key_iset (cacheMgr P ! nat index)"
    by (auto simp: nameSet2ByIndex_def nat_less_iff split: if_splits)
  from cacheInv_slot [OF assms(1) i] show ?thesis unfolding n by (simp add: slotInv_def)
qed

lemma reachable_analyticalIntegral:
  "reachable dep createIntegral P \<Longrightarrow>
   analyticalIntegral dep createIntegral getVal getIndex integVal P code rangeName = Inr (v, P') \<Longrightarrow>
   reachable dep createIntegral P'"
proof (induction dep createIntegral getVal getIndex integVal P code rangeName
    rule: analyticalIntegral.induct)
  case (1 dep createIntegral getVal getIndex integVal P code rangeName)
  show ?case
  proof (cases "getObjByIndex (cacheMgr P) (code - 1)")
    case (Some cache)
    with "1.prems"(2) have "P' = P" by (simp add: analyticalIntegral.simps [of _ _ _ _ _ P])
    with "1.prems"(1) show ?thesis by simp
  next
    case None
    with "1.prems"(2) obtain names where names: "nameSet2ByIndex (cacheMgr P) (code - 1) = Some names"
      by (cases "nameSet2ByIndex (cacheMgr P) (code - 1)")
         (auto simp: analyticalIntegral.simps [of _ _ _ _ _ P])
    with None "1.prems"(2) obtain cp where
      cp: "getPartIntList dep createIntegral P (selectParameters dep P names) rangeName = Inr cp"
      by (cases "getPartIntList dep createIntegral P (selectParameters dep P names) rangeName")
         (auto simp: analyticalIntegral.simps [of _ _ _ _ _ P])
    from None names cp "1.prems"(2) have code: "\<not> code \<noteq> fst cp + 1"
      and rec: "analyticalIntegral dep createIntegral getVal getIndex integVal (snd cp) (fst cp + 1) rangeName = Inr (v, P')"
      by (auto simp: analyticalIntegral.simps [of _ _ _ _ _ P] split: if_splits)
    from "1.prems"(1) have "cacheInv dep createIntegral P" by (rule reachable_cacheInv)
    from cacheInv_names_distinct [OF this names]
    have "distinct (selectParameters dep P names)" by (simp add: selectParameters_def)
    with "1.prems"(1) have "reachable dep createIntegral (snd cp)"
      using cp by (cases cp) (auto intro: reachable.request)
    from "1.IH" [OF None names cp code this rec] show ?thesis .
  qed
qed


section \<open>The claims\<close>

text \<open>
  C1. For every product and every set of integration variables (both collections with
  unique names), \<^verbatim>\<open>groupProductTerms\<close> passes its two assertions and returns groups
  whose variable-set sizes sum to the number of integration variables and whose term-set
  sizes sum to the number of real terms of the product.
\<close>

theorem groupProductTerms_sizes:
  assumes "distinct (compRSet P)" and "distinct allVars"
  shows "\<exists>m. groupProductTerms dep P allVars = Inr m \<and>
             sum_list (map (\<lambda>g. getSize (fst g)) m) = getSize allVars \<and>
             sum_list (map (\<lambda>g. getSize (snd g)) m) = getSize (compRSet P)"
proof -
  define m where "m = mergeLoop (initialMap dep (compRSet P) allVars)"
  note f = mergeLoop_facts [OF assms, of dep, folded m_def]
  have "length (concat (map fst m)) = length allVars"
    using f(1) by (metis size_mset)
  moreover have "length (concat (map snd m)) = length (compRSet P)"
    using f(2,3) assms(1) by (metis distinct_card)
  ultimately show ?thesis
    using groupProductTerms_eq [OF assms, of dep]
    by (simp add: m_def getSize_def length_concat_sum)
qed

theorem groupProductTerms_sizes_witness:
  "distinct (compRSet (exProduct [''f'', ''g'', ''h''])) \<and> distinct [''x'', ''y''] \<and>
   (\<exists>m. groupProductTerms exDep (exProduct [''f'', ''g'', ''h'']) [''x'', ''y''] = Inr m \<and>
        sum_list (map (\<lambda>g. getSize (fst g)) m) = getSize [''x'', ''y''] \<and>
        sum_list (map (\<lambda>g. getSize (snd g)) m) =
          getSize (compRSet (exProduct [''f'', ''g'', ''h''])))"
  using groupProductTerms_sizes [of "exProduct [''f'', ''g'', ''h'']" "[''x'', ''y'']" exDep]
  by (simp add: exProduct_def)

text \<open>
  C2. The merge loop terminates, and in the returned sequence no pair is left for
  \<^verbatim>\<open>findOverlap2nd\<close>: the term sets of two groups at different positions do not
  overlap, their variable sets are disjoint, and every integration variable is in the
  variable set of exactly one group.
\<close>

theorem groupProductTerms_partition:
  assumes "distinct (compRSet P)" and "distinct allVars"
  shows "\<exists>m. groupProductTerms dep P allVars = Inr m \<and>
             findOverlap2nd m 0 = None \<and>
             (\<forall>a b. a < length m \<longrightarrow> b < length m \<longrightarrow> a \<noteq> b \<longrightarrow>
                \<not> overlaps (snd (m ! a)) (snd (m ! b)) \<and>
                set (fst (m ! a)) \<inter> set (fst (m ! b)) = {}) \<and>
             (\<forall>v \<in> set allVars. \<exists>!a. a < length m \<and> v \<in> set (fst (m ! a)))"
proof -
  define m where "m = mergeLoop (initialMap dep (compRSet P) allVars)"
  note f = mergeLoop_facts [OF assms, of dep, folded m_def]
  have dv: "distinct (concat (map fst m))"
    using f(1) assms(2) by (metis mset_eq_imp_distinct_iff)
  have sv: "set (concat (map fst m)) = set allVars"
    using f(1) by (metis set_mset_mset)
  have vdisj: "set (fst (m ! a)) \<inter> set (fst (m ! b)) = {}" if "a < b" "b < length m" for a b
    using distinct_concat_nth_disjoint [OF dv that(1)] that by simp
  have tdisj: "\<not> overlaps (snd (m ! a)) (snd (m ! b))" if "a < b" "b < length m" for a b
    using f(4) that unfolding noOverlap_def by blast
  have none: "findOverlap2nd m 0 = None"
  proof (cases "findOverlap2nd m 0")
    case None
    then show ?thesis .
  next
    case (Some ij)
    then have s: "findOverlap2nd m 0 = Some (fst ij, snd ij)" by simp
    from findOverlap2nd_bounds [OF s] findOverlap2nd_Some [OF s] tdisj [of "fst ij" "snd ij"]
    show ?thesis by simp
  qed
  have pair: "\<not> overlaps (snd (m ! a)) (snd (m ! b)) \<and> set (fst (m ! a)) \<inter> set (fst (m ! b)) = {}"
    if "a < length m" "b < length m" "a \<noteq> b" for a b
  proof (cases "a < b")
    case True
    with that vdisj tdisj show ?thesis by simp
  next
    case False
    with that have "b < a" by simp
    with that vdisj [of b a] tdisj [of b a] show ?thesis
      by (auto simp: overlaps_iff)
  qed
  have uniq: "\<exists>!a. a < length m \<and> v \<in> set (fst (m ! a))" if "v \<in> set allVars" for v
  proof -
    from that sv have "v \<in> set (concat (map fst m))" by simp
    then obtain g where "g \<in> set m" "v \<in> set (fst g)" by auto
    then obtain a where a: "a < length m" "v \<in> set (fst (m ! a))"
      by (auto simp: in_set_conv_nth)
    show ?thesis
    proof (rule ex1I [of _ a])
      show "a < length m \<and> v \<in> set (fst (m ! a))" using a by simp
    next
      fix b assume b: "b < length m \<and> v \<in> set (fst (m ! b))"
      show "b = a"
      proof (rule ccontr)
        assume "b \<noteq> a"
        with pair [of a b] a b show False by auto
      qed
    qed
  qed
  show ?thesis
    using groupProductTerms_eq [OF assms, of dep] none pair uniq
    unfolding m_def [symmetric] by blast
qed

theorem groupProductTerms_partition_witness:
  "distinct (compRSet (exProduct [''f'', ''g'', ''k''])) \<and> distinct [''x'', ''y''] \<and>
   (\<exists>m. groupProductTerms exDep (exProduct [''f'', ''g'', ''k'']) [''x'', ''y''] = Inr m \<and>
        findOverlap2nd m 0 = None \<and>
        (\<forall>a b. a < length m \<longrightarrow> b < length m \<longrightarrow> a \<noteq> b \<longrightarrow>
           \<not> overlaps (snd (m ! a)) (snd (m ! b)) \<and>
           set (fst (m ! a)) \<inter> set (fst (m ! b)) = {}) \<and>
        (\<forall>v \<in> set [''x'', ''y'']. \<exists>!a. a < length m \<and> v \<in> set (fst (m ! a))))"
  using groupProductTerms_partition [of "exProduct [''f'', ''g'', ''k'']" "[''x'', ''y'']" exDep]
  by (simp add: exProduct_def)

text \<open>
  C3. In every state of a product, a request whose grouping yields fewer than two groups
  makes \<^verbatim>\<open>getPartIntList\<close> return \<open>-1\<close> and leaves the product, and so its cache, as it
  is; the cache holds no entry for the key of the request.
\<close>

theorem getPartIntList_degenerate:
  assumes "reachable dep createIntegral P"
    and "groupProductTerms dep P iset = Inr m" and "length m < 2"
  shows "getPartIntList dep createIntegral P iset isetRange = Inr (- 1, P) \<and>
         getObj (cacheMgr P) iset iset (RooNameReg_ptr isetRange) = None"
proof -
  from assms(1) have inv: "cacheInv dep createIntegral P" by (rule reachable_cacheInv)
  have miss: "getObj (cacheMgr P) iset iset (RooNameReg_ptr isetRange) = None"
  proof (cases "getObj (cacheMgr P) iset iset (RooNameReg_ptr isetRange)")
    case None
    then show ?thesis .
  next
    case (Some ce)
    from getObj_Some_key [OF Some] obtain k where k: "k < length (cacheMgr P)"
      and key: "slotKey (cacheMgr P ! k) =
        (normalized iset, normalized iset, RooNameReg_ptr isetRange)" by blast
    from inv have R: "distinct (compRSet P)" by (simp add: cacheInv_def)
    from cacheInv_slot [OF inv k] obtain m' where K: "distinct (key_iset (cacheMgr P ! k))"
      and m': "groupProductTerms dep P (key_iset (cacheMgr P ! k)) = Inr m'" "2 \<le> length m'"
      by (auto simp: slotInv_def)
    from key have "set iset = set (key_iset (cacheMgr P ! k))"
      by (simp add: slotKey_def normalized_def)
    from groupProductTerms_few_perm [OF R K this assms(2,3), of m'] m' show ?thesis by simp
  qed
  with assms(2,3) show ?thesis by (simp add: getPartIntList_def)
qed

theorem getPartIntList_degenerate_witness:
  "reachable exDep exCreateIntegral exP1 \<and>
   groupProductTerms exDep exP1 [] = Inr [([], [''f'', ''g''])] \<and>
   length [([] :: RooArgSet, [''f'', ''g''])] < 2 \<and>
   getPartIntList exDep exCreateIntegral exP1 [] None = Inr (- 1, exP1) \<and>
   getObj (cacheMgr exP1) [] [] (RooNameReg_ptr None) = None \<and>
   reachable exDep exCreateIntegral (exProduct [''f'']) \<and>
   groupProductTerms exDep (exProduct [''f'']) [''x''] = Inr [([''x''], [''f''])] \<and>
   getPartIntList exDep exCreateIntegral (exProduct [''f'']) [''x''] None =
     Inr (- 1, exProduct [''f''])"
proof -
  have single: "reachable exDep exCreateIntegral (exProduct [''f''])"
    by (rule reachable.fresh) (simp_all add: exProduct_def)
  from getPartIntList_degenerate [OF ex_reachable_P1 ex_group_none_P1, of None]
    getPartIntList_degenerate [OF single ex_group_single, of None]
    ex_reachable_P1 ex_group_none_P1 single ex_group_single
  show ?thesis by simp
qed

text \<open>
  C4. \<^verbatim>\<open>evaluate\<close> returns the product of the values of the real components, each taken
  under the normalization set of the product, times the product of the indices of the
  category components; the factors are multiplied from 1 in the order of the real
  components, then of the category components. One real component of value 2.5 and one
  category component of index 3 give 7.5.
\<close>

theorem evaluate_product:
  "evaluate getVal getIndex P =
     prod_list (map (\<lambda>rcomp. getVal rcomp (nset P)) (compRSet P)) *
     of_int (prod_list (map getIndex (compCSet P))) \<and>
   evaluate getVal getIndex P =
     foldl (*) 1 (map (\<lambda>rcomp. getVal rcomp (nset P)) (compRSet P) @
                  map (\<lambda>ccomp. of_int (getIndex ccomp)) (compCSet P)) \<and>
   (\<forall>r c. compRSet P = [r] \<and> compCSet P = [c] \<and> getVal r (nset P) = 5 / 2 \<and> getIndex c = 3 \<longrightarrow>
      evaluate getVal getIndex P = 15 / 2)"
proof -
  have "of_int (prod_list (map getIndex cs)) = prod_list (map (\<lambda>ccomp. real_of_int (getIndex ccomp)) cs)" for cs
    by (induction cs) simp_all
  then have closed: "evaluate getVal getIndex P =
      prod_list (map (\<lambda>rcomp. getVal rcomp (nset P)) (compRSet P)) *
      of_int (prod_list (map getIndex (compCSet P)))"
    by (simp add: evaluate_eq)
  have order: "evaluate getVal getIndex P =
      foldl (*) 1 (map (\<lambda>rcomp. getVal rcomp (nset P)) (compRSet P) @
                   map (\<lambda>ccomp. of_int (getIndex ccomp)) (compCSet P))"
    by (simp add: evaluate_def foldl_map)
  have "evaluate getVal getIndex P = 15 / 2"
    if "compRSet P = [r] \<and> compCSet P = [c] \<and> getVal r (nset P) = 5 / 2 \<and> getIndex c = 3" for r c
    using that by (simp add: closed)
  with closed order show ?thesis by blast
qed

theorem evaluate_product_witness:
  "evaluate (\<lambda>a ns. if a = ''r'' \<and> ns = Some [''x''] then 5 / 2 else 0) (\<lambda>c. 3)
     (\<lparr>compRSet = [''r''], compCSet = [''c''], nset = Some [''x''], cacheMgr = []\<rparr> :: unit RooProduct) = 15 / 2"
  using evaluate_product [of "\<lambda>a ns. if a = ''r'' \<and> ns = Some [''x''] then 5 / 2 else 0" "\<lambda>c. 3"
      "\<lparr>compRSet = [''r''], compCSet = [''c''], nset = Some [''x''], cacheMgr = []\<rparr> :: unit RooProduct"]
  by simp




text \<open>
  C6. After \<^verbatim>\<open>getPartIntList\<close> has returned a code (not \<open>-1\<close>) for a variable set and a
  range name, a call with a variable set that is equal by value (the same names, in
  whatever order) and the same range token, directly or after further requests, returns
  the same code from the lookup and leaves the product, and so the entry, as it is.
\<close>

theorem getPartIntList_roundtrip:
  assumes "getPartIntList dep createIntegral P iset isetRange = Inr (code, P1)"
    and "0 \<le> code"
    and "requests dep createIntegral P1 P2"
    and "normalized iset' = normalized iset"
    and "RooNameReg_ptr isetRange' = RooNameReg_ptr isetRange"
  shows "getPartIntList dep createIntegral P2 iset' isetRange' = Inr (code, P2) \<and>
         (\<exists>e. getObj (cacheMgr P2) iset' iset' (RooNameReg_ptr isetRange') = Some (code, e))"
proof -
  from getPartIntList_stored [OF assms(1,2)] obtain e
    where "getObj (cacheMgr P1) iset iset (RooNameReg_ptr isetRange) = Some (code, e)" by blast
  with assms(3) have "getObj (cacheMgr P2) iset iset (RooNameReg_ptr isetRange) = Some (code, e)"
    by (rule requests_keep_hit)
  then have hit: "getObj (cacheMgr P2) iset' iset' (RooNameReg_ptr isetRange') = Some (code, e)"
    using assms(5)
      getObj_normalized [OF assms(4) assms(4), of "cacheMgr P2" "RooNameReg_ptr isetRange"]
    by simp
  from getObj_hit [OF hit] hit show ?thesis by auto
qed

theorem getPartIntList_roundtrip_witness:
  "getPartIntList exDep exCreateIntegral (exProduct [''f'', ''g'']) [''x'', ''y''] None =
     Inr (0, exQ1) \<and>
   (0 :: int) \<le> 0 \<and>
   requests exDep exCreateIntegral exQ1 exQ2 \<and>
   normalized [''y'', ''x''] = normalized [''x'', ''y''] \<and>
   RooNameReg_ptr None = RooNameReg_ptr None \<and>
   getPartIntList exDep exCreateIntegral exQ2 [''y'', ''x''] None = Inr (0, exQ2) \<and>
   (\<exists>e. getObj (cacheMgr exQ2) [''y'', ''x''] [''y'', ''x''] (RooNameReg_ptr None) = Some (0, e))"
proof -
  have n: "normalized [''y'', ''x''] = normalized [''x'', ''y'']"
    by (auto simp: normalized_def)
  from getPartIntList_roundtrip [OF ex_request_xy _ ex_requests_Q2 n, of None]
    ex_request_xy ex_requests_Q2 n
  show ?thesis by simp
qed

text \<open>
  C7, as the claim states it, fails: the name of a sub-product is not made from sorted
  names. One product, asked for the integral over \<open>x, y\<close> and over \<open>y, x\<close>, yields the
  same term set in two orders, and the two names differ.
\<close>

theorem makeFPName_order_counterexample:
  "groupProductTerms exDep (exProduct [''f'', ''g'', ''h'', ''k'']) [''x'', ''y''] =
     Inr [([], [''k'']), ([''x'', ''y''], [''f'', ''h'', ''g''])] \<and>
   groupProductTerms exDep (exProduct [''f'', ''g'', ''h'', ''k'']) [''y'', ''x''] =
     Inr [([], [''k'']), ([''y'', ''x''], [''g'', ''h'', ''f''])] \<and>
   set [''f'', ''h'', ''g''] = set [''g'', ''h'', ''f''] \<and>
   makeFPName ''SUBPROD_'' [''f'', ''h'', ''g''] = ''SUBPROD_f_X_h_X_g'' \<and>
   makeFPName ''SUBPROD_'' [''g'', ''h'', ''f''] = ''SUBPROD_g_X_h_X_f'' \<and>
   makeFPName ''SUBPROD_'' [''f'', ''h'', ''g''] \<noteq> makeFPName ''SUBPROD_'' [''g'', ''h'', ''f'']"
proof -
  have a: "groupProductTerms exDep (exProduct [''f'', ''g'', ''h'', ''k'']) [''x'', ''y''] =
      Inr [([], [''k'']), ([''x'', ''y''], [''f'', ''h'', ''g''])]"
    by (simp add: groupProductTerms_def exProduct_def exDep_def dependsOnSet_def add_def
        addSet_def getSize_def mergeLoop.simps overlaps_def mergeAt_def erase_def)
  have b: "groupProductTerms exDep (exProduct [''f'', ''g'', ''h'', ''k'']) [''y'', ''x''] =
      Inr [([], [''k'']), ([''y'', ''x''], [''g'', ''h'', ''f''])]"
    by (simp add: groupProductTerms_def exProduct_def exDep_def dependsOnSet_def add_def
        addSet_def getSize_def mergeLoop.simps overlaps_def mergeAt_def erase_def)
  have c: "set [''f'', ''h'', ''g''] = set [''g'', ''h'', ''f'']" by auto
  have d: "makeFPName ''SUBPROD_'' [''f'', ''h'', ''g''] = ''SUBPROD_f_X_h_X_g''"
    by (simp add: makeFPName_def)
  have e: "makeFPName ''SUBPROD_'' [''g'', ''h'', ''f''] = ''SUBPROD_g_X_h_X_f''"
    by (simp add: makeFPName_def)
  have f: "makeFPName ''SUBPROD_'' [''f'', ''h'', ''g''] \<noteq> makeFPName ''SUBPROD_'' [''g'', ''h'', ''f'']"
    unfolding d e by simp
  show ?thesis by (rule conjI [OF a conjI [OF b conjI [OF c conjI [OF d conjI [OF e f]]]]])
qed

text \<open>
  C7, amended. For a group with more than one term the builder makes a sub-product whose
  name is \<^verbatim>\<open>SUBPROD_\<close> followed by the names of the terms in the iteration order of the term
  set, separated by \<^verbatim>\<open>_X_\<close>; the sub-product is added to the owned list.
\<close>

theorem getPartIntList_term_name:
  assumes "getSize (snd i) > 1"
  shows "\<exists>t ts. snd i = t # ts \<and>
           makeFPName ''SUBPROD_'' (snd i) = ''SUBPROD_'' @ t @ concat (map (\<lambda>a. ''_X_'' @ a) ts) \<and>
           getPartIntList_term i cache =
             Inr (SubProd (''SUBPROD_'' @ t @ concat (map (\<lambda>a. ''_X_'' @ a) ts)) (snd i),
                  cache\<lparr>ownedList := ownedList cache @
                    [SubProd (''SUBPROD_'' @ t @ concat (map (\<lambda>a. ''_X_'' @ a) ts)) (snd i)]\<rparr>)"
proof -
  from assms obtain t ts where ts: "snd i = t # ts" by (cases "snd i") (auto simp: getSize_def)
  have "getPartIntList_term i cache =
      Inr (SubProd (makeFPName ''SUBPROD_'' (snd i)) (snd i),
           cache\<lparr>ownedList := ownedList cache @ [SubProd (makeFPName ''SUBPROD_'' (snd i)) (snd i)]\<rparr>)"
    using assms by (simp add: getPartIntList_term_def Let_def)
  then show ?thesis unfolding ts makeFPName_eq by blast
qed

theorem getPartIntList_term_name_witness:
  "getSize (snd ([''x'', ''y''], [''g'', ''h'', ''f''])) > 1 \<and>
   getPartIntList_term ([''x'', ''y''], [''g'', ''h'', ''f''])
       (\<lparr>prodList = [], ownedList = []\<rparr> :: unit CacheElem) =
     Inr (SubProd ''SUBPROD_g_X_h_X_f'' [''g'', ''h'', ''f''],
          \<lparr>prodList = [], ownedList = [SubProd ''SUBPROD_g_X_h_X_f'' [''g'', ''h'', ''f'']]\<rparr>)"
  using getPartIntList_term_name [of "([''x'', ''y''], [''g'', ''h'', ''f''])"
      "\<lparr>prodList = [], ownedList = []\<rparr> :: unit CacheElem"]
  by (simp add: getSize_def)

text \<open>
  C8. When some real term depends on none of the integration variables, the first group
  returned pairs the empty variable set with exactly the independent terms, in the order
  of the product, and every other group has a variable. For \<open>f(x)\<close>, \<open>g(y)\<close> and the
  variable \<open>x\<close> the groups are \<open>(\<emptyset>, {g})\<close> and \<open>({x}, {f})\<close>, the cached list is \<open>g\<close> and
  the integral of \<open>f\<close> over \<open>x\<close>, and its value is the value of \<open>g\<close> times the value of
  the integral.
\<close>

theorem groupProductTerms_independent:
  "(distinct (compRSet P) \<and> distinct allVars \<and>
    filter (\<lambda>t. \<not> dependsOnSet dep t allVars) (compRSet P) \<noteq> [] \<longrightarrow>
    (\<exists>rest. groupProductTerms dep P allVars =
        Inr (([], filter (\<lambda>t. \<not> dependsOnSet dep t allVars) (compRSet P)) # rest) \<and>
      (\<forall>g \<in> set rest. fst g \<noteq> []))) \<and>
   groupProductTerms exDep (exProduct [''f'', ''g'']) [''x''] =
     Inr [([], [''g'']), ([''x''], [''f''])] \<and>
   getPartIntList exDep exCreateIntegral (exProduct [''f'', ''g'']) [''x''] None = Inr (0, exP1) \<and>
   map_option prodList (getObjByIndex (cacheMgr exP1) 0) =
     Some [Comp ''g'', Integ (''f'', [''x''])] \<and>
   calculate getVal getIndex integVal [Comp ''g'', Integ (''f'', [''x''])] =
     getVal ''g'' None * integVal (''f'', [''x'']) \<and>
   analyticalIntegral exDep exCreateIntegral getVal getIndex integVal exP1 1 None =
     Inr (getVal ''g'' None * integVal (''f'', [''x'']), exP1)"
proof -
  have "map_option prodList (getObjByIndex (cacheMgr exP1) 0) =
      Some [Comp ''g'', Integ (''f'', [''x''])]"
    by (simp add: getObjByIndex_def exStates)
  with groupProductTerms_indep_first [of P allVars dep] ex_group_x ex_request_x
    ex_calculate [where getVal = getVal and getIndex = getIndex and integVal = integVal]
    ex_analyticalIntegral [where getVal = getVal and getIndex = getIndex and integVal = integVal]
  show ?thesis by blast
qed

theorem groupProductTerms_independent_witness:
  "distinct (compRSet (exProduct [''f'', ''g'', ''h'', ''k''])) \<and> distinct [''x''] \<and>
   filter (\<lambda>t. \<not> dependsOnSet exDep t [''x'']) (compRSet (exProduct [''f'', ''g'', ''h'', ''k''])) =
     [''g'', ''k''] \<and>
   (\<exists>rest. groupProductTerms exDep (exProduct [''f'', ''g'', ''h'', ''k'']) [''x''] =
        Inr (([], [''g'', ''k'']) # rest) \<and>
      (\<forall>g \<in> set rest. fst g \<noteq> []))"
proof -
  have f: "filter (\<lambda>t. \<not> dependsOnSet exDep t [''x'']) (compRSet (exProduct [''f'', ''g'', ''h'', ''k''])) =
      [''g'', ''k'']"
    by (simp add: exProduct_def dependsOnSet_def exDep_def)
  have d: "distinct (compRSet (exProduct [''f'', ''g'', ''h'', ''k'']))" "distinct [''x'']"
    by (simp_all add: exProduct_def)
  from groupProductTerms_independent [of "exProduct [''f'', ''g'', ''h'', ''k'']" "[''x'']" exDep]
  have "\<exists>rest. groupProductTerms exDep (exProduct [''f'', ''g'', ''h'', ''k'']) [''x''] =
        Inr (([], filter (\<lambda>t. \<not> dependsOnSet exDep t [''x''])
                (compRSet (exProduct [''f'', ''g'', ''h'', ''k'']))) # rest) \<and>
      (\<forall>g \<in> set rest. fst g \<noteq> [])"
    using d f by simp
  with d f show ?thesis by simp
qed

text \<open>
  C9. The grouper returns the group \<open>({v}, \<emptyset>)\<close> for every integration variable \<open>v\<close> on
  which no real term depends. The loop of \<^verbatim>\<open>getPartIntList\<close> over the groups does not
  fail an assertion when every integration variable has a real term that depends on it;
  when some variable has none, the loop fails, and it fails by the assertion whenever
  \<^verbatim>\<open>createIntegral\<close> returns no null pointer.
\<close>

theorem getPartIntList_loop_assertion:
  assumes "distinct (compRSet P)" and "distinct allVars"
  shows "\<exists>m. groupProductTerms dep P allVars = Inr m \<and>
     (\<forall>v \<in> set allVars. \<not> list_ex (\<lambda>t. dep t v) (compRSet P) \<longrightarrow> ([v], []) \<in> set m) \<and>
     ((\<forall>v \<in> set allVars. list_ex (\<lambda>t. dep t v) (compRSet P)) \<longrightarrow>
        getPartIntList_loop createIntegral isetRange m cache \<noteq> Inl AssertionFailed) \<and>
     ((\<exists>v \<in> set allVars. \<not> list_ex (\<lambda>t. dep t v) (compRSet P)) \<longrightarrow>
        (\<exists>e. getPartIntList_loop createIntegral isetRange m cache = Inl e) \<and>
        ((\<forall>t vars. createIntegral t vars isetRange \<noteq> None) \<longrightarrow>
           getPartIntList_loop createIntegral isetRange m cache = Inl AssertionFailed))"
proof -
  define m where "m = mergeLoop (initialMap dep (compRSet P) allVars)"
  have eq: "groupProductTerms dep P allVars = Inr m"
    unfolding m_def using assms by (rule groupProductTerms_eq)
  have unused: "([v], []) \<in> set m"
    if "v \<in> set allVars" "\<not> list_ex (\<lambda>t. dep t v) (compRSet P)" for v
    unfolding m_def
    using initialMap_unused [of v allVars dep "compRSet P", OF that]
    by (rule mergeLoop_keeps_empty) simp
  have used: "getPartIntList_loop createIntegral isetRange m cache \<noteq> Inl AssertionFailed"
    if "\<forall>v \<in> set allVars. list_ex (\<lambda>t. dep t v) (compRSet P)"
  proof -
    from initialMap_all_used [OF that] have "\<forall>g \<in> set m. snd g \<noteq> []"
      unfolding m_def by (rule mergeLoop_nonempty)
    then show ?thesis by (rule getPartIntList_loop_nonempty)
  qed
  have fails: "\<exists>e. getPartIntList_loop createIntegral isetRange m cache = Inl e"
    if "\<exists>v \<in> set allVars. \<not> list_ex (\<lambda>t. dep t v) (compRSet P)"
  proof -
    from that unused obtain v where "([v], []) \<in> set m" by blast
    then show ?thesis by (rule getPartIntList_loop_empty) simp
  qed
  have asserts: "getPartIntList_loop createIntegral isetRange m cache = Inl AssertionFailed"
    if "\<exists>v \<in> set allVars. \<not> list_ex (\<lambda>t. dep t v) (compRSet P)"
      and "\<forall>t vars. createIntegral t vars isetRange \<noteq> None"
  proof -
    from fails [OF that(1)] obtain e
      where e: "getPartIntList_loop createIntegral isetRange m cache = Inl e" by blast
    from getPartIntList_loop_error [OF that(2) e] e show ?thesis by simp
  qed
  from eq unused used fails asserts show ?thesis by blast
qed

theorem getPartIntList_loop_assertion_witness:
  "distinct (compRSet (exProduct [''f'', ''g''])) \<and> distinct [''x'', ''z''] \<and>
   \<not> list_ex (\<lambda>t. exDep t ''z'') (compRSet (exProduct [''f'', ''g''])) \<and>
   (\<exists>m. groupProductTerms exDep (exProduct [''f'', ''g'']) [''x'', ''z''] = Inr m \<and>
        ([''z''], []) \<in> set m \<and>
        getPartIntList_loop exCreateIntegral None m
          \<lparr>prodList = [], ownedList = []\<rparr> = Inl AssertionFailed) \<and>
   distinct [''x'', ''y''] \<and>
   list_ex (\<lambda>t. exDep t ''x'') (compRSet (exProduct [''f'', ''g''])) \<and>
   list_ex (\<lambda>t. exDep t ''y'') (compRSet (exProduct [''f'', ''g''])) \<and>
   (\<exists>m. groupProductTerms exDep (exProduct [''f'', ''g'']) [''x'', ''y''] = Inr m \<and>
        getPartIntList_loop exCreateIntegral None m
          \<lparr>prodList = [], ownedList = []\<rparr> \<noteq> Inl AssertionFailed)"
proof -
  have d: "distinct (compRSet (exProduct [''f'', ''g'']))" "distinct [''x'', ''z'']"
    "distinct [''x'', ''y'']"
    by (simp_all add: exProduct_def)
  have z: "\<not> list_ex (\<lambda>t. exDep t ''z'') (compRSet (exProduct [''f'', ''g'']))"
    by (simp add: exProduct_def exDep_def)
  have x: "list_ex (\<lambda>t. exDep t ''x'') (compRSet (exProduct [''f'', ''g'']))"
    and y: "list_ex (\<lambda>t. exDep t ''y'') (compRSet (exProduct [''f'', ''g'']))"
    by (simp_all add: exProduct_def exDep_def)
  have unused: "\<exists>m. groupProductTerms exDep (exProduct [''f'', ''g'']) [''x'', ''z''] = Inr m \<and>
        ([''z''], []) \<in> set m \<and>
        getPartIntList_loop exCreateIntegral None m
          \<lparr>prodList = [], ownedList = []\<rparr> = Inl AssertionFailed"
    using getPartIntList_loop_assertion [OF d(1,2), of exDep exCreateIntegral None
        "\<lparr>prodList = [], ownedList = []\<rparr>"] z exCreateIntegral_total
    by auto
  have used: "\<exists>m. groupProductTerms exDep (exProduct [''f'', ''g'']) [''x'', ''y''] = Inr m \<and>
        getPartIntList_loop exCreateIntegral None m
          \<lparr>prodList = [], ownedList = []\<rparr> \<noteq> Inl AssertionFailed"
    using getPartIntList_loop_assertion [OF d(1,3), of exDep exCreateIntegral None
        "\<lparr>prodList = [], ownedList = []\<rparr>"] x y
    by auto
  from d z unused x y used show ?thesis by blast
qed

text \<open>
  C10. Multiplication starts from 1: \<^verbatim>\<open>evaluate\<close> of a product with no components is 1,
  \<^verbatim>\<open>evaluate\<close> of a product with category components only is the product of their
  indices, and \<^verbatim>\<open>calculate\<close> of the empty list is 1.
\<close>

theorem evaluate_identity:
  "(compRSet P = [] \<and> compCSet P = [] \<longrightarrow> evaluate getVal getIndex P = 1) \<and>
   (compRSet P = [] \<longrightarrow>
      evaluate getVal getIndex P = of_int (prod_list (map getIndex (compCSet P)))) \<and>
   calculate getVal getIndex integVal [] = 1"
proof -
  have "of_int (prod_list (map getIndex cs)) = prod_list (map (\<lambda>ccomp. real_of_int (getIndex ccomp)) cs)" for cs
    by (induction cs) simp_all
  then show ?thesis by (auto simp: evaluate_eq calculate_def)
qed

theorem evaluate_identity_witness:
  "evaluate (\<lambda>a ns. 7) (\<lambda>c. 5)
     (\<lparr>compRSet = [], compCSet = [], nset = None, cacheMgr = []\<rparr> :: unit RooProduct) = 1 \<and>
   evaluate (\<lambda>a ns. 7) (\<lambda>c. if c = ''c'' then 2 else 3)
     (\<lparr>compRSet = [], compCSet = [''c'', ''d''], nset = None, cacheMgr = []\<rparr> :: unit RooProduct) = 6 \<and>
   calculate (\<lambda>a ns. 7) (\<lambda>c. 5) (\<lambda>i :: unit. 7) [] = 1"
  using evaluate_identity [of "\<lparr>compRSet = [], compCSet = [], nset = None, cacheMgr = []\<rparr> :: unit RooProduct"
      "\<lambda>a ns. 7" "\<lambda>c. 5" "\<lambda>i :: unit. 7"]
    evaluate_identity [of "\<lparr>compRSet = [], compCSet = [''c'', ''d''], nset = None, cacheMgr = []\<rparr> :: unit RooProduct"
      "\<lambda>a ns. 7" "\<lambda>c. if c = ''c'' then 2 else 3" "\<lambda>i :: unit. 7"]
  by simp

end
